theory Spec2Isabelle
  imports Main "HOL-Library.Word" "HOL-Library.Sublist"
begin

section \<open>The SAM3U benchmark example (examples/sam3u\_benchmark.c)\<close>

text \<open>
  The program is a client of the USB library: it installs a SIGINT handler, initialises
  the library, opens one device, claims one interface, submits one transfer and then
  handles events until interrupted. Everything the library and the operating system
  decide (return codes, the handle and the transfer they hand out, the transfers they
  complete, the clock, the moments at which SIGINT arrives) is an input of the model,
  collected in the record \<open>env\<close>. Every library call, every line of output and every
  call of \<open>exit\<close> is appended to a trace, together with the function of the source file
  that issued it.
\<close>

subsection \<open>C types\<close>

text \<open>
  The LP64 data model of the POSIX build: \<open>int\<close> and \<open>unsigned int\<close> have 32 bits,
  \<open>long\<close> and \<open>unsigned long\<close> 64. Signed values are read with \<open>sint\<close>, unsigned ones
  with \<open>unat\<close>; word arithmetic wraps around. A pointer is an address, and \<open>None\<close> is
  the null pointer.
\<close>

type_synonym cint = "32 word"
type_synonym cuint = "32 word"
type_synonym long = "64 word"
type_synonym ulong = "64 word"
type_synonym ptr = nat

record timeval =
  tv_sec :: long
  tv_usec :: long

text \<open>
  Modelled from the spec: the declarations of libusb.h, which is not among the source
  files. A transfer is "a single asynchronous USB data exchange request (bulk or
  isochronous)", an isochronous packet a sub-unit of it "with its own completion status
  and length". The fields are those the example reads; the constants have the values of
  the library's enumerations.
\<close>

record libusb_iso_packet_descriptor =
  pkt_length :: cuint
  pkt_actual_length :: cuint
  pkt_status :: cint

record libusb_transfer =
  xfr_type :: "8 word"
  xfr_status :: cint
  xfr_length :: cint
  xfr_actual_length :: cint
  xfr_buffer :: "8 word list"
  xfr_num_iso_packets :: cint
  xfr_iso_packet_desc :: "libusb_iso_packet_descriptor list"

definition LIBUSB_SUCCESS :: cint where
  "LIBUSB_SUCCESS = 0"

definition LIBUSB_TRANSFER_COMPLETED :: cint where
  "LIBUSB_TRANSFER_COMPLETED = 0"

definition LIBUSB_TRANSFER_TYPE_ISOCHRONOUS :: "8 word" where
  "LIBUSB_TRANSFER_TYPE_ISOCHRONOUS = 1"

subsection \<open>Constants and globals of the example\<close>

definition NSEC_PER_SEC :: long where
  "NSEC_PER_SEC = 1000000000"


definition EP_ISO_IN :: "8 word" where
  "EP_ISO_IN = 0x86"

text \<open>The functions of the source file, as issuers of trace entries.\<close>

datatype func = Fn_main | Fn_benchmark_in | Fn_cb_xfr | Fn_measure

text \<open>
  An argument of a \<open>printf\<close> call, by its conversion: \<open>%d\<close>, \<open>%u\<close>, \<open>%lu\<close>, \<open>%02x\<close>,
  and \<open>%s\<close> applied to \<open>libusb_error_name(rc)\<close>.
\<close>

datatype arg = Arg_d int | Arg_u nat | Arg_lu nat | Arg_x nat | Arg_error_name cint

text \<open>
  The calls the example makes, with the arguments it passes. The library context is
  always the null pointer (the default context), so it is an argument only where the
  claims speak of it.
\<close>

datatype call =
    Sigaction_SIGINT
  | Libusb_init_context "ptr option"
  | Libusb_error_name cint
  | Libusb_open_device_with_vid_pid "ptr option" "16 word" "16 word"
  | Libusb_claim_interface "ptr option" cint
  | Libusb_alloc_transfer cint
  | Libusb_fill_iso_transfer ptr "ptr option" "8 word" cint cint cuint
  | Libusb_set_iso_packet_lengths ptr cuint
  | Libusb_fill_bulk_transfer ptr "ptr option" "8 word" cint cuint
  | Get_timestamp
  | Libusb_submit_transfer ptr
  | Libusb_handle_events "ptr option"
  | Libusb_release_interface "ptr option" cint
  | Libusb_close ptr
  | Libusb_exit "ptr option"
  | Libusb_free_transfer ptr
  | Printf string "arg list"
  | Fprintf_stderr string "arg list"
  | Exit_call cint

type_synonym event = "func \<times> call"

record globals =
  do_exit :: cint
  devh :: "ptr option"
  num_bytes :: ulong
  num_xfer :: ulong
  tv_start :: timeval
  trace :: "event list"

definition initial_globals :: globals where
  "initial_globals =
     \<lparr>do_exit = 0, devh = None, num_bytes = 0, num_xfer = 0,
      tv_start = \<lparr>tv_sec = 0, tv_usec = 0\<rparr>, trace = []\<rparr>"

definition log :: "func \<Rightarrow> call \<Rightarrow> globals \<Rightarrow> globals" where
  "log f c g = g\<lparr>trace := trace g @ [(f, c)]\<rparr>"

subsection \<open>Runs\<close>

text \<open>
  A function of the program either returns a value, or the process stops inside it:
  \<open>exit\<close> was called, the behaviour became undefined (a division by zero, a read
  outside an array), or the inputs of the model ended while the event loop was still
  running.
\<close>

datatype halt = Exited cint | Undefined_behaviour | Still_running

datatype 'a run = Stop halt globals | Go 'a globals

fun bind :: "'a run \<Rightarrow> ('a \<Rightarrow> globals \<Rightarrow> 'b run) \<Rightarrow> 'b run" where
  "bind (Stop h g) f = Stop h g"
| "bind (Go a g) f = f a g"

fun final :: "'a run \<Rightarrow> globals" where
  "final (Stop h g) = g"
| "final (Go a g) = g"

fun defined_run :: "'a run \<Rightarrow> bool" where
  "defined_run (Stop h g) = (h \<noteq> Undefined_behaviour)"
| "defined_run (Go a g) = True"

subsection \<open>measure and the signal handler\<close>

text \<open>
  Lines 168 to 175 of \<open>measure\<close>: the difference of the two timestamps in
  milliseconds, as the code computes it. The casts to \<open>unsigned long\<close> keep the bits;
  the division is unsigned.
\<close>

definition measure_diff_msec :: "timeval \<Rightarrow> timeval \<Rightarrow> ulong" where
  "measure_diff_msec start stop =
     (let diff_sec = tv_sec stop - tv_sec start;
          diff_usec = tv_usec stop - tv_usec start;
          borrow = (sint diff_usec < 0);
          diff_usec = (if borrow then diff_usec + NSEC_PER_SEC else diff_usec);
          diff_sec = (if borrow then diff_sec - 1 else diff_sec);
          diff_msec = diff_sec * 1000;
          diff_msec = diff_msec + diff_usec div 1000
      in diff_msec)"

text \<open>
  \<open>measure\<close> reads the clock (the timestamp is the argument) and prints the counters,
  the elapsed milliseconds and the throughput. Dividing by a zero \<open>diff_msec\<close> is
  undefined behaviour.
\<close>

definition measure_fn :: "timeval \<Rightarrow> globals \<Rightarrow> unit run" where
  "measure_fn tv_stop g0 =
     (let g = log Fn_measure Get_timestamp g0;
          diff_msec = measure_diff_msec (tv_start g) tv_stop
      in if diff_msec = 0 then Stop Undefined_behaviour g
         else Go () (log Fn_measure
                (Printf ''%lu transfers (total %lu bytes) in %lu milliseconds => %lu bytes/sec\<newline>''
                   [Arg_lu (unat (num_xfer g)), Arg_lu (unat (num_bytes g)),
                    Arg_lu (unat diff_msec),
                    Arg_lu (unat ((num_bytes g * 1000) div diff_msec))]) g))"

definition sig_hdlr :: "timeval \<Rightarrow> globals \<Rightarrow> unit run" where
  "sig_hdlr tv_stop g =
     bind (measure_fn tv_stop g) (\<lambda>_ g. Go () (g\<lparr>do_exit := 1\<rparr>))"

text \<open>
  SIGINT may arrive any number of times; each arrival runs the handler, with the time
  the clock shows then.
\<close>

fun deliver :: "timeval list \<Rightarrow> globals \<Rightarrow> unit run" where
  "deliver [] g = Go () g"
| "deliver (tv # tvs) g = bind (sig_hdlr tv g) (\<lambda>_. deliver tvs)"

subsection \<open>The completion callback\<close>

text \<open>The loop over the isochronous packets, lines 88 to 97; \<open>is\<close> are the indices left.\<close>

fun iso_packets_loop :: "nat list \<Rightarrow> libusb_transfer \<Rightarrow> globals \<Rightarrow> unit run" where
  "iso_packets_loop [] xfr g = Go () g"
| "iso_packets_loop (i # is) xfr g =
     (if length (xfr_iso_packet_desc xfr) \<le> i then Stop Undefined_behaviour g
      else
        let pack = xfr_iso_packet_desc xfr ! i in
        if pkt_status pack \<noteq> LIBUSB_TRANSFER_COMPLETED then
          Stop (Exited 5)
            (log Fn_cb_xfr (Exit_call 5)
              (log Fn_cb_xfr
                (Fprintf_stderr ''Error: pack %d status %d\<newline>''
                   [Arg_d (int i), Arg_d (sint (pkt_status pack))]) g))
        else
          iso_packets_loop is xfr
            (log Fn_cb_xfr
              (Printf ''pack%d length:%u, actual_length:%u\<newline>''
                 [Arg_d (int i), Arg_u (unat (pkt_length pack)),
                  Arg_u (unat (pkt_actual_length pack))]) g))"

text \<open>The hexadecimal dump of the buffer, lines 101 to 109.\<close>

fun dump_loop :: "nat list \<Rightarrow> libusb_transfer \<Rightarrow> globals \<Rightarrow> unit run" where
  "dump_loop [] xfr g = Go () g"
| "dump_loop (i # is) xfr g =
     (if length (xfr_buffer xfr) \<le> i then Stop Undefined_behaviour g
      else
        let g = log Fn_cb_xfr (Printf ''%02x'' [Arg_x (unat (xfr_buffer xfr ! i))]) g;
            g = (if i mod 16 \<noteq> 0 then log Fn_cb_xfr (Printf ''\<newline>'' []) g
                 else if i mod 8 \<noteq> 0 then log Fn_cb_xfr (Printf ''  '' []) g
                 else log Fn_cb_xfr (Printf '' '' []) g)
        in dump_loop is xfr g)"

text \<open>
  \<open>cb_xfr\<close>: the callback gets the pointer \<open>p\<close> to the transfer, whose contents at that
  moment are \<open>xfr\<close>; \<open>submit_rc\<close> is what the library answers to the re-submission.
\<close>

definition cb_xfr :: "ptr \<Rightarrow> libusb_transfer \<Rightarrow> cint \<Rightarrow> globals \<Rightarrow> unit run" where
  "cb_xfr p xfr submit_rc g0 =
     (if xfr_status xfr \<noteq> LIBUSB_TRANSFER_COMPLETED then
        Stop (Exited 3)
          (log Fn_cb_xfr (Exit_call 3)
            (log Fn_cb_xfr (Libusb_free_transfer p)
              (log Fn_cb_xfr
                (Fprintf_stderr ''transfer status %d\<newline>'' [Arg_d (sint (xfr_status xfr))]) g0)))
      else
        bind (if xfr_type xfr = LIBUSB_TRANSFER_TYPE_ISOCHRONOUS
              then iso_packets_loop [0 ..< nat (sint (xfr_num_iso_packets xfr))] xfr g0
              else Go () g0)
        (\<lambda>_ g.
        bind (dump_loop [0 ..< nat (sint (xfr_actual_length xfr))] xfr
               (log Fn_cb_xfr
                 (Printf ''length:%u, actual_length:%u\<newline>''
                    [Arg_u (unat (xfr_length xfr)), Arg_u (unat (xfr_actual_length xfr))]) g))
        (\<lambda>_ g.
          let g = g\<lparr>num_bytes := num_bytes g + scast (xfr_actual_length xfr)\<rparr>;
              g = g\<lparr>num_xfer := num_xfer g + 1\<rparr>;
              g = log Fn_cb_xfr (Libusb_submit_transfer p) g
          in if sint submit_rc < 0 then
               Stop (Exited 1)
                 (log Fn_cb_xfr (Exit_call 1)
                   (log Fn_cb_xfr (Fprintf_stderr ''error re-submitting URB\<newline>'' []) g))
             else Go () g)))"

subsection \<open>The environment\<close>

text \<open>
  The places of \<open>main\<close> and \<open>benchmark_in\<close> at which SIGINT can arrive: during or
  right after the call the place is named after. Inside \<open>libusb_handle_events\<close>
  signals arrive between the callbacks the library dispatches.
\<close>

datatype point =
    P_sigaction | P_init | P_open | P_claim | P_alloc | P_fill | P_set_lengths
  | P_timestamp | P_submit | P_release | P_close | P_exit

text \<open>
  Modelled from the spec: the event handling of the library, which is not among the
  source files, "the external library's mechanism for polling/dispatching completion
  callbacks for outstanding transfers". One call of \<open>libusb_handle_events\<close> is a
  round: the library calls the callback for each transfer that completed (with the
  pointer, the contents of the transfer, and its answer to the re-submission the
  callback may make), SIGINT may arrive in between, and the call returns a code.
\<close>

datatype happening = Completion ptr libusb_transfer cint | Sigint timeval

record round =
  r_happenings :: "happening list"
  r_rc :: cint

text \<open>
  What the library, the clock and the user decide in one run: the return codes of
  \<open>libusb_init_context\<close>, \<open>libusb_claim_interface\<close> and of the first
  \<open>libusb_submit_transfer\<close>, the handle \<open>libusb_open_device_with_vid_pid\<close> returns,
  the transfer \<open>libusb_alloc_transfer\<close> returns, the time \<open>benchmark_in\<close> reads, the
  rounds of event handling, and the arrivals of SIGINT elsewhere.
\<close>

record env =
  e_init_rc :: cint
  e_open :: "ptr option"
  e_claim_rc :: cint
  e_alloc :: "ptr option"
  e_tv_start :: timeval
  e_submit_rc :: cint
  e_rounds :: "round list"
  e_sigint :: "point \<Rightarrow> timeval list"

text \<open>A call issued by function \<open>f\<close> at place \<open>pt\<close>, and the signals arriving there.\<close>

definition lib_call :: "env \<Rightarrow> point \<Rightarrow> func \<Rightarrow> call \<Rightarrow> globals \<Rightarrow> unit run" where
  "lib_call env pt f c g = deliver (e_sigint env pt) (log f c g)"

fun happen :: "happening \<Rightarrow> globals \<Rightarrow> unit run" where
  "happen (Completion p xfr submit_rc) g = cb_xfr p xfr submit_rc g"
| "happen (Sigint tv) g = sig_hdlr tv g"

fun dispatch :: "happening list \<Rightarrow> globals \<Rightarrow> unit run" where
  "dispatch [] g = Go () g"
| "dispatch (h # hs) g = bind (happen h g) (\<lambda>_. dispatch hs)"

definition libusb_handle_events :: "round \<Rightarrow> globals \<Rightarrow> cint run" where
  "libusb_handle_events r g =
     bind (dispatch (r_happenings r) (log Fn_main (Libusb_handle_events None) g))
       (\<lambda>_ g. Go (r_rc r) g)"

subsection \<open>benchmark\_in and main\<close>

text \<open>
  \<open>benchmark_in\<close>: \<open>buf\<close> has 2048 bytes; \<open>sizeof(buf)/num_iso_pack\<close> is computed only
  on the isochronous branch, where \<open>num_iso_pack\<close> is 16. The variable \<open>errno\<close> is not
  modelled.
\<close>

definition benchmark_in :: "env \<Rightarrow> 8 word \<Rightarrow> globals \<Rightarrow> cint run" where
  "benchmark_in env ep g0 =
     (let num_iso_pack = (if ep = EP_ISO_IN then 16 else 0) in
      bind (lib_call env P_alloc Fn_benchmark_in (Libusb_alloc_transfer num_iso_pack) g0)
      (\<lambda>_ g.
      case e_alloc env of
        None \<Rightarrow> Go (- 1) g
      | Some xfr \<Rightarrow>
          bind (if ep = EP_ISO_IN then
                  bind (lib_call env P_fill Fn_benchmark_in
                         (Libusb_fill_iso_transfer xfr (devh g) ep 2048 num_iso_pack 0) g)
                  (\<lambda>_ g. lib_call env P_set_lengths Fn_benchmark_in
                         (Libusb_set_iso_packet_lengths xfr (2048 div ucast num_iso_pack)) g)
                else
                  lib_call env P_fill Fn_benchmark_in
                    (Libusb_fill_bulk_transfer xfr (devh g) ep 2048 0) g)
          (\<lambda>_ g.
          bind (lib_call env P_timestamp Fn_benchmark_in Get_timestamp
                 (g\<lparr>tv_start := e_tv_start env\<rparr>))
          (\<lambda>_ g.
          bind (lib_call env P_submit Fn_benchmark_in (Libusb_submit_transfer xfr) g)
          (\<lambda>_ g. Go (e_submit_rc env) g)))))"

text \<open>The loop of lines 224 to 228; \<open>rc\<close> is the local variable of \<open>main\<close>.\<close>

fun event_loop :: "round list \<Rightarrow> cint \<Rightarrow> globals \<Rightarrow> cint run" where
  "event_loop [] rc g = (if do_exit g \<noteq> 0 then Go rc g else Stop Still_running g)"
| "event_loop (r # rs) rc g =
     (if do_exit g \<noteq> 0 then Go rc g
      else bind (libusb_handle_events r g)
             (\<lambda>rc g. if rc \<noteq> LIBUSB_SUCCESS then Go rc g else event_loop rs rc g))"

text \<open>The code from the label \<open>out\<close> on.\<close>

definition main_out :: "env \<Rightarrow> cint \<Rightarrow> globals \<Rightarrow> cint run" where
  "main_out env rc g0 =
     bind (case devh g0 of
             None \<Rightarrow> Go () g0
           | Some h \<Rightarrow> lib_call env P_close Fn_main (Libusb_close h) g0)
     (\<lambda>_ g.
     bind (lib_call env P_exit Fn_main (Libusb_exit None) g)
     (\<lambda>_ g. Go rc g))"

definition main :: "env \<Rightarrow> cint run" where
  "main env =
     bind (lib_call env P_sigaction Fn_main Sigaction_SIGINT initial_globals)
     (\<lambda>_ g.
     bind (lib_call env P_init Fn_main (Libusb_init_context None) g)
     (\<lambda>_ g.
     let rc = e_init_rc env in
     if sint rc < 0 then
       Stop (Exited 1)
         (log Fn_main (Exit_call 1)
           (log Fn_main (Fprintf_stderr ''Error initializing libusb: %s\<newline>'' [Arg_error_name rc])
             (log Fn_main (Libusb_error_name rc) g)))
     else
     bind (lib_call env P_open Fn_main
            (Libusb_open_device_with_vid_pid None 0x16c0 0x0763) g)
     (\<lambda>_ g.
     let g = g\<lparr>devh := e_open env\<rparr> in
     if devh g = None then
       main_out env rc
         (log Fn_main (Fprintf_stderr ''Error finding USB device\<newline>'' []) g)
     else
     bind (lib_call env P_claim Fn_main (Libusb_claim_interface (devh g) 2) g)
     (\<lambda>_ g.
     let rc = e_claim_rc env in
     if sint rc < 0 then
       main_out env rc
         (log Fn_main (Fprintf_stderr ''Error claiming interface: %s\<newline>'' [Arg_error_name rc])
           (log Fn_main (Libusb_error_name rc) g))
     else
     bind (benchmark_in env EP_ISO_IN g)
     (\<lambda>_ g.
     bind (event_loop (e_rounds env) rc g)
     (\<lambda>rc g.
     bind (lib_call env P_release Fn_main (Libusb_release_interface (devh g) 2) g)
     (\<lambda>_ g. main_out env rc g)))))))"

section \<open>Specification-side definitions\<close>

subsection \<open>Elapsed time, as the specification has it\<close>

text \<open>
  The elapsed time between two timestamps as the specification words it, "the true
  elapsed time in milliseconds between tv\_start and the stop timestamp": the
  difference in microseconds, in whole milliseconds. This definition follows the
  specification, not the code; \<open>measure_diff_msec\<close> is the code.
\<close>

definition elapsed_usec :: "timeval \<Rightarrow> timeval \<Rightarrow> int" where
  "elapsed_usec start stop =
     (sint (tv_sec stop) - sint (tv_sec start)) * 1000000
       + (sint (tv_usec stop) - sint (tv_usec start))"

definition elapsed_msec :: "timeval \<Rightarrow> timeval \<Rightarrow> int" where
  "elapsed_msec start stop = elapsed_usec start stop div 1000"

subsection \<open>The output of the callback\<close>

definition logs :: "event list \<Rightarrow> globals \<Rightarrow> globals" where
  "logs evs g = g\<lparr>trace := trace g @ evs\<rparr>"

definition pack_print :: "libusb_transfer \<Rightarrow> nat \<Rightarrow> event" where
  "pack_print xfr i =
     (Fn_cb_xfr, Printf ''pack%d length:%u, actual_length:%u\<newline>''
        [Arg_d (int i), Arg_u (unat (pkt_length (xfr_iso_packet_desc xfr ! i))),
         Arg_u (unat (pkt_actual_length (xfr_iso_packet_desc xfr ! i)))])"

definition pack_error :: "libusb_transfer \<Rightarrow> nat \<Rightarrow> event list" where
  "pack_error xfr i =
     [(Fn_cb_xfr, Fprintf_stderr ''Error: pack %d status %d\<newline>''
        [Arg_d (int i), Arg_d (sint (pkt_status (xfr_iso_packet_desc xfr ! i)))]),
      (Fn_cb_xfr, Exit_call 5)]"

definition pack_ok :: "libusb_transfer \<Rightarrow> nat \<Rightarrow> bool" where
  "pack_ok xfr i = (pkt_status (xfr_iso_packet_desc xfr ! i) = LIBUSB_TRANSFER_COMPLETED)"

definition dump_print :: "libusb_transfer \<Rightarrow> nat \<Rightarrow> event list" where
  "dump_print xfr i =
     [(Fn_cb_xfr, Printf ''%02x'' [Arg_x (unat (xfr_buffer xfr ! i))]),
      (Fn_cb_xfr, Printf (if i mod 16 \<noteq> 0 then ''\<newline>'' else '' '') [])]"

definition in_bounds :: "libusb_transfer \<Rightarrow> bool" where
  "in_bounds xfr =
     ((xfr_type xfr = LIBUSB_TRANSFER_TYPE_ISOCHRONOUS \<longrightarrow>
         nat (sint (xfr_num_iso_packets xfr)) \<le> length (xfr_iso_packet_desc xfr))
      \<and> nat (sint (xfr_actual_length xfr)) \<le> length (xfr_buffer xfr))"

definition length_print :: "libusb_transfer \<Rightarrow> event" where
  "length_print xfr =
     (Fn_cb_xfr, Printf ''length:%u, actual_length:%u\<newline>''
        [Arg_u (unat (xfr_length xfr)), Arg_u (unat (xfr_actual_length xfr))])"

definition cb_prints :: "libusb_transfer \<Rightarrow> event list" where
  "cb_prints xfr =
     (if xfr_type xfr = LIBUSB_TRANSFER_TYPE_ISOCHRONOUS
      then map (pack_print xfr) [0 ..< nat (sint (xfr_num_iso_packets xfr))] else [])
     @ length_print xfr
     # concat (map (dump_print xfr) [0 ..< nat (sint (xfr_actual_length xfr))])"

definition resubmit_error :: "event list" where
  "resubmit_error =
     [(Fn_cb_xfr, Fprintf_stderr ''error re-submitting URB\<newline>'' []), (Fn_cb_xfr, Exit_call 1)]"

definition counted :: "libusb_transfer \<Rightarrow> globals \<Rightarrow> globals" where
  "counted xfr g =
     g\<lparr>num_bytes := num_bytes g + scast (xfr_actual_length xfr), num_xfer := num_xfer g + 1\<rparr>"

subsection \<open>Postconditions of runs\<close>

definition ensures :: "'a run \<Rightarrow> (halt \<Rightarrow> globals \<Rightarrow> bool) \<Rightarrow> ('a \<Rightarrow> globals \<Rightarrow> bool) \<Rightarrow> bool" where
  "ensures r S Q = (case r of Stop h g \<Rightarrow> S h g | Go a g \<Rightarrow> Q a g)"

subsection \<open>Traces and what the handler and the callback may change\<close>

definition own :: "event list \<Rightarrow> call list" where
  "own tr = map snd (filter (\<lambda>e. fst e = Fn_main \<or> fst e = Fn_benchmark_in) tr)"

definition issued_by :: "func \<Rightarrow> event list \<Rightarrow> call list" where
  "issued_by f tr = map snd (filter (\<lambda>e. fst e = f) tr)"

fun measure_event :: "event \<Rightarrow> bool" where
  "measure_event (f, c) =
     (f = Fn_measure \<and> (case c of Get_timestamp \<Rightarrow> True | Printf _ _ \<Rightarrow> True | _ \<Rightarrow> False))"

fun cb_event :: "event \<Rightarrow> bool" where
  "cb_event (f, c) =
     (f = Fn_cb_xfr \<and>
      (case c of Printf _ _ \<Rightarrow> True | Fprintf_stderr _ _ \<Rightarrow> True | Libusb_free_transfer _ \<Rightarrow> True
       | Libusb_submit_transfer _ \<Rightarrow> True | Exit_call _ \<Rightarrow> True | _ \<Rightarrow> False))"

text \<open>What a run of the signal handler may change.\<close>

definition sig_frame :: "globals \<Rightarrow> globals \<Rightarrow> bool" where
  "sig_frame g g' =
     ((\<exists>evs. trace g' = trace g @ evs \<and> (\<forall>e\<in>set evs. measure_event e)
          \<and> (do_exit g' = do_exit g \<or> do_exit g' = 1 \<and> evs \<noteq> []))
      \<and> devh g' = devh g \<and> num_bytes g' = num_bytes g \<and> num_xfer g' = num_xfer g
      \<and> tv_start g' = tv_start g)"

text \<open>What a run of the callback may change.\<close>

definition cb_ext :: "globals \<Rightarrow> globals \<Rightarrow> bool" where
  "cb_ext g g' = (\<exists>evs. g' = logs evs g \<and> (\<forall>e\<in>set evs. cb_event e))"

definition cb_frame :: "globals \<Rightarrow> globals \<Rightarrow> bool" where
  "cb_frame g g' =
     ((\<exists>evs. trace g' = trace g @ evs \<and> (\<forall>e\<in>set evs. cb_event e))
      \<and> devh g' = devh g \<and> do_exit g' = do_exit g \<and> tv_start g' = tv_start g)"

definition transfer_call :: "call \<Rightarrow> bool" where
  "transfer_call c =
     (case c of Libusb_alloc_transfer _ \<Rightarrow> True | Libusb_submit_transfer _ \<Rightarrow> True | _ \<Rightarrow> False)"

definition claim_call :: "env \<Rightarrow> call" where
  "claim_call env = Libusb_claim_interface (e_open env) 2"

definition handle_call :: call where
  "handle_call = Libusb_handle_events None"

definition before :: "call \<Rightarrow> (event \<Rightarrow> bool) \<Rightarrow> event list \<Rightarrow> bool" where
  "before m P tr = (\<forall>e\<in>set (takeWhile (\<lambda>e. snd e \<noteq> m) tr). \<not> P e)"

definition has :: "call \<Rightarrow> globals \<Rightarrow> bool" where
  "has m g = (\<exists>e\<in>set (trace g). snd e = m)"

definition world :: "env \<Rightarrow> globals \<Rightarrow> bool" where
  "world env g =
     (before (claim_call env) (\<lambda>e. transfer_call (snd e)) (trace g)
      \<and> before handle_call (\<lambda>e. fst e = Fn_cb_xfr) (trace g)
      \<and> (\<forall>e\<in>set (trace g). fst e = Fn_measure \<longrightarrow> measure_event e)
      \<and> (\<forall>e\<in>set (trace g). fst e = Fn_cb_xfr \<longrightarrow> cb_event e)
      \<and> (do_exit g = 0 \<or> do_exit g = 1 \<and> (\<exists>e\<in>set (trace g). fst e = Fn_measure)))"

definition foreign :: "globals \<Rightarrow> globals \<Rightarrow> bool" where
  "foreign g g' =
     ((\<exists>evs. trace g' = trace g @ evs \<and> (\<forall>e\<in>set evs. measure_event e \<or> cb_event e)
          \<and> (do_exit g' = do_exit g \<or> do_exit g' = 1 \<and> (\<exists>e\<in>set evs. measure_event e)))
      \<and> devh g' = devh g \<and> tv_start g' = tv_start g)"

fun completed :: "happening list \<Rightarrow> libusb_transfer list" where
  "completed [] = []"
| "completed (Completion p xfr rc # hs) = xfr # completed hs"
| "completed (Sigint tv # hs) = completed hs"

definition total_bytes :: "libusb_transfer list \<Rightarrow> ulong" where
  "total_bytes xs = sum_list (map (\<lambda>xfr. scast (xfr_actual_length xfr)) xs)"

definition rounds_completed :: "round list \<Rightarrow> libusb_transfer list" where
  "rounds_completed rs = concat (map (\<lambda>r. completed (r_happenings r)) rs)"

subsection \<open>The counters and the event loop\<close>

definition tally :: "globals \<Rightarrow> libusb_transfer list \<Rightarrow> globals \<Rightarrow> bool" where
  "tally g xs g' =
     (num_bytes g' = num_bytes g + total_bytes xs \<and> num_xfer g' = num_xfer g + of_nat (length xs))"

definition looped :: "env \<Rightarrow> round list \<Rightarrow> globals \<Rightarrow> nat \<Rightarrow> globals \<Rightarrow> bool" where
  "looped env rs g k g' =
     (k \<le> length rs \<and> world env g' \<and> devh g' = devh g \<and> tv_start g' = tv_start g
      \<and> has (claim_call env) g'
      \<and> own (trace g') = own (trace g) @ replicate k handle_call)"

subsection \<open>The calls of a run of main\<close>

definition bench_calls :: "env \<Rightarrow> 8 word \<Rightarrow> ptr option \<Rightarrow> call list" where
  "bench_calls env ep dh =
     Libusb_alloc_transfer (if ep = EP_ISO_IN then 16 else 0)
     # (case e_alloc env of
          None \<Rightarrow> []
        | Some xfr \<Rightarrow>
            (if ep = EP_ISO_IN
             then [Libusb_fill_iso_transfer xfr dh ep 2048 16 0,
                   Libusb_set_iso_packet_lengths xfr 128]
             else [Libusb_fill_bulk_transfer xfr dh ep 2048 0])
            @ [Get_timestamp, Libusb_submit_transfer xfr])"

definition teardown :: "env \<Rightarrow> call list" where
  "teardown env =
     (case e_open env of None \<Rightarrow> [] | Some h \<Rightarrow> [Libusb_close h]) @ [Libusb_exit None]"

definition running :: "env \<Rightarrow> nat \<Rightarrow> call list" where
  "running env k =
     [Sigaction_SIGINT, Libusb_init_context None,
      Libusb_open_device_with_vid_pid None 0x16c0 0x0763, claim_call env]
     @ bench_calls env EP_ISO_IN (e_open env) @ replicate k handle_call"

definition script :: "env \<Rightarrow> nat \<Rightarrow> call list" where
  "script env k =
     (if sint (e_init_rc env) < 0 then
        [Sigaction_SIGINT, Libusb_init_context None, Libusb_error_name (e_init_rc env),
         Fprintf_stderr ''Error initializing libusb: %s\<newline>'' [Arg_error_name (e_init_rc env)],
         Exit_call 1]
      else if e_open env = None then
        [Sigaction_SIGINT, Libusb_init_context None,
         Libusb_open_device_with_vid_pid None 0x16c0 0x0763,
         Fprintf_stderr ''Error finding USB device\<newline>'' []] @ teardown env
      else if sint (e_claim_rc env) < 0 then
        [Sigaction_SIGINT, Libusb_init_context None,
         Libusb_open_device_with_vid_pid None 0x16c0 0x0763, claim_call env,
         Libusb_error_name (e_claim_rc env),
         Fprintf_stderr ''Error claiming interface: %s\<newline>'' [Arg_error_name (e_claim_rc env)]]
        @ teardown env
      else
        running env k @ Libusb_release_interface (e_open env) 2 # teardown env)"

definition loop_reached :: "env \<Rightarrow> bool" where
  "loop_reached env =
     (\<not> sint (e_init_rc env) < 0 \<and> e_open env \<noteq> None \<and> \<not> sint (e_claim_rc env) < 0)"

definition staged :: "env \<Rightarrow> call list \<Rightarrow> libusb_transfer list \<Rightarrow> globals \<Rightarrow> bool" where
  "staged env cs xs g = (world env g \<and> own (trace g) = cs \<and> tally initial_globals xs g)"

definition returned :: "env \<Rightarrow> cint \<Rightarrow> globals \<Rightarrow> bool" where
  "returned env rc g =
     (\<exists>k\<le>length (e_rounds env).
        staged env (script env k) (rounds_completed (take k (e_rounds env))) g
        \<and> \<not> sint (e_init_rc env) < 0
        \<and> (if e_open env = None then k = 0 \<and> rc = e_init_rc env
           else if sint (e_claim_rc env) < 0 then k = 0 \<and> rc = e_claim_rc env
           else (do_exit g \<noteq> 0
                 \<or> 0 < k \<and> rc = r_rc (e_rounds env ! (k - 1)) \<and> rc \<noteq> LIBUSB_SUCCESS)
                \<and> (k = 0 \<longrightarrow> rc = e_claim_rc env)))"

definition halted :: "env \<Rightarrow> halt \<Rightarrow> globals \<Rightarrow> bool" where
  "halted env h g =
     (world env g \<and>
      (case h of
         Undefined_behaviour \<Rightarrow> \<exists>k. prefix (own (trace g)) (script env k)
       | Exited c \<Rightarrow>
           if sint (e_init_rc env) < 0 then c = 1 \<and> staged env (script env 0) [] g
           else loop_reached env
                \<and> (\<exists>k. 0 < k \<and> k \<le> length (e_rounds env) \<and> own (trace g) = running env k)
       | Still_running \<Rightarrow>
           loop_reached env
           \<and> staged env (running env (length (e_rounds env))) (rounds_completed (e_rounds env)) g
           \<and> do_exit g = 0))"

subsection \<open>Notions used in the statements, and example inputs\<close>

definition packets :: "libusb_transfer \<Rightarrow> libusb_iso_packet_descriptor list" where
  "packets xfr = take (nat (sint (xfr_num_iso_packets xfr))) (xfr_iso_packet_desc xfr)"

definition added :: "globals \<Rightarrow> 'a run \<Rightarrow> event list" where
  "added g r = drop (length (trace g)) (trace (final r))"

definition is_printf :: "event \<Rightarrow> bool" where
  "is_printf e = (case snd e of Printf _ _ \<Rightarrow> True | _ \<Rightarrow> False)"

definition xfr_ok :: libusb_transfer where
  "xfr_ok =
     \<lparr>xfr_type = 1, xfr_status = 0, xfr_length = 2048, xfr_actual_length = 2,
      xfr_buffer = [0xAB, 0xCD], xfr_num_iso_packets = 2,
      xfr_iso_packet_desc =
        [\<lparr>pkt_length = 128, pkt_actual_length = 2, pkt_status = 0\<rparr>,
         \<lparr>pkt_length = 128, pkt_actual_length = 0, pkt_status = 0\<rparr>]\<rparr>"

definition xfr_bad_packet :: libusb_transfer where
  "xfr_bad_packet =
     \<lparr>xfr_type = 1, xfr_status = 0, xfr_length = 2048, xfr_actual_length = 2,
      xfr_buffer = [0xAB, 0xCD], xfr_num_iso_packets = 2,
      xfr_iso_packet_desc =
        [\<lparr>pkt_length = 128, pkt_actual_length = 2, pkt_status = 0\<rparr>,
         \<lparr>pkt_length = 128, pkt_actual_length = 0, pkt_status = 1\<rparr>]\<rparr>"

definition xfr_stalled :: libusb_transfer where
  "xfr_stalled = xfr_ok\<lparr>xfr_status := 4\<rparr>"

definition no_sigint :: "point \<Rightarrow> timeval list" where
  "no_sigint pt = []"

definition env_ok :: env where
  "env_ok =
     \<lparr>e_init_rc = 0, e_open = Some 7, e_claim_rc = 0, e_alloc = Some 9,
      e_tv_start = \<lparr>tv_sec = 100, tv_usec = 0\<rparr>, e_submit_rc = 0,
      e_rounds =
        [\<lparr>r_happenings = [Completion 9 xfr_ok 0], r_rc = 0\<rparr>,
         \<lparr>r_happenings = [Completion 9 xfr_ok 0, Sigint \<lparr>tv_sec = 102, tv_usec = 0\<rparr>], r_rc = 0\<rparr>],
      e_sigint = no_sigint\<rparr>"

definition env_init_error :: env where
  "env_init_error = env_ok\<lparr>e_init_rc := - 99\<rparr>"

definition env_claim_error :: env where
  "env_claim_error = env_ok\<lparr>e_claim_rc := - 6\<rparr>"

definition calls :: "event list \<Rightarrow> call list" where
  "calls tr = map snd tr"

definition is_open :: "call \<Rightarrow> bool" where
  "is_open c = (case c of Libusb_open_device_with_vid_pid _ _ _ \<Rightarrow> True | _ \<Rightarrow> False)"

definition is_claim :: "call \<Rightarrow> bool" where
  "is_claim c = (case c of Libusb_claim_interface _ _ \<Rightarrow> True | _ \<Rightarrow> False)"

definition env_no_device :: env where
  "env_no_device = env_ok\<lparr>e_open := None\<rparr>"


definition env_handle_error :: env where
  "env_handle_error =
     env_ok\<lparr>e_rounds := [\<lparr>r_happenings = [Completion 9 xfr_ok 0], r_rc = - 4\<rparr>]\<rparr>"

definition env_running :: env where
  "env_running = env_ok\<lparr>e_rounds := [\<lparr>r_happenings = [Completion 9 xfr_ok 0], r_rc = 0\<rparr>]\<rparr>"

subsection \<open>The transfers the callback counts\<close>

text \<open>
  The checks of the callback (lines 81 to 98): a transfer passes when its status is
  \<open>LIBUSB_TRANSFER_COMPLETED\<close> and, if it is isochronous, each of its
  \<open>num_iso_packets\<close> packets has that status.
\<close>

definition passes :: "libusb_transfer \<Rightarrow> bool" where
  "passes xfr =
     (xfr_status xfr = LIBUSB_TRANSFER_COMPLETED
      \<and> (xfr_type xfr = LIBUSB_TRANSFER_TYPE_ISOCHRONOUS \<longrightarrow>
           (\<forall>pk\<in>set (packets xfr). pkt_status pk = LIBUSB_TRANSFER_COMPLETED)))"

text \<open>
  A completion is fatal when the callback ends the process in it: the transfer fails
  the checks (\<open>exit(3)\<close>, \<open>exit(5)\<close>), or it passes and the re-submission is refused
  (\<open>exit(1)\<close>, after the counters were updated).
\<close>

fun fatal :: "happening \<Rightarrow> bool" where
  "fatal (Completion p xfr rc) = (\<not> passes xfr \<or> sint rc < 0)"
| "fatal (Sigint tv) = False"

text \<open>
  Of the completions the library dispatches, in order, the transfers the callback has
  added to the counters when it ends the process: those that pass the checks, up to
  and including the one whose re-submission is refused, or up to the one that fails.
\<close>

fun counted_until_exit :: "happening list \<Rightarrow> libusb_transfer list" where
  "counted_until_exit [] = []"
| "counted_until_exit (Sigint tv # hs) = counted_until_exit hs"
| "counted_until_exit (Completion p xfr rc # hs) =
     (if passes xfr then xfr # (if sint rc < 0 then [] else counted_until_exit hs) else [])"

definition exit_counted :: "env \<Rightarrow> libusb_transfer list" where
  "exit_counted env =
     (if sint (e_init_rc env) < 0 then []
      else counted_until_exit (concat (map r_happenings (e_rounds env))))"

text \<open>A run that leaves both counters as they are, and stops only on undefined behaviour.\<close>

definition quiet :: "globals \<Rightarrow> 'a run \<Rightarrow> bool" where
  "quiet g r =
     ensures r
       (\<lambda>h g'. h = Undefined_behaviour \<and> num_bytes g' = num_bytes g \<and> num_xfer g' = num_xfer g)
       (\<lambda>_ g'. num_bytes g' = num_bytes g \<and> num_xfer g' = num_xfer g)"

definition env_resubmit_error :: env where
  "env_resubmit_error =
     env_ok\<lparr>e_rounds :=
       [\<lparr>r_happenings = [Completion 9 xfr_ok 0, Completion 9 xfr_ok (- 1), Completion 9 xfr_ok 0],
         r_rc = 0\<rparr>]\<rparr>"







subsection \<open>Invariants of the state, and the steps of a run\<close>

text \<open>
  A property of the state that a run keeps unless the behaviour becomes undefined, and
  a property that everything a run of \<open>main\<close> consists of keeps: an entry of \<open>main\<close> or
  \<open>benchmark_in\<close> in the trace, an assignment to \<open>devh\<close> or \<open>tv_start\<close>, a run of the
  signal handler, a run of the callback.
\<close>

definition keeps :: "(globals \<Rightarrow> bool) \<Rightarrow> 'a run \<Rightarrow> bool" where
  "keeps J r = ensures r (\<lambda>h g. h \<noteq> Undefined_behaviour \<longrightarrow> J g) (\<lambda>_ g. J g)"






definition steps_made :: "env \<Rightarrow> nat \<Rightarrow> bool \<Rightarrow> call list" where
  "steps_made env k to_the_end =
     Libusb_init_context None #
     (if sint (e_init_rc env) < 0 then []
      else
        Libusb_open_device_with_vid_pid None 0x16c0 0x0763 #
        (case e_open env of
           None \<Rightarrow> [Libusb_exit None]
         | Some h \<Rightarrow>
             Libusb_claim_interface (Some h) 2 #
             (if sint (e_claim_rc env) < 0 then [Libusb_close h, Libusb_exit None]
              else
                Libusb_alloc_transfer 16 #
                (case e_alloc env of
                   None \<Rightarrow> []
                 | Some xfr \<Rightarrow>
                     [Libusb_fill_iso_transfer xfr (Some h) EP_ISO_IN 2048 16 0,
                      Libusb_set_iso_packet_lengths xfr 128,
                      Libusb_submit_transfer xfr])
                @ replicate k (Libusb_handle_events None)
                @ (if to_the_end
                   then [Libusb_release_interface (Some h) 2, Libusb_close h, Libusb_exit None]
                   else []))))"

definition bench_ran :: "call list \<Rightarrow> globals \<Rightarrow> globals \<Rightarrow> bool" where
  "bench_ran cs g g' =
     ((\<exists>evs. trace g' = trace g @ evs \<and> issued_by Fn_benchmark_in evs = cs)
      \<and> devh g' = devh g)"


section \<open>Lemmas\<close>

subsection \<open>Basic facts\<close>

lemma trace_log [simp]: "trace (log f c g) = trace g @ [(f, c)]"
  and do_exit_log [simp]: "do_exit (log f c g) = do_exit g"
  and devh_log [simp]: "devh (log f c g) = devh g"
  and num_bytes_log [simp]: "num_bytes (log f c g) = num_bytes g"
  and num_xfer_log [simp]: "num_xfer (log f c g) = num_xfer g"
  and tv_start_log [simp]: "tv_start (log f c g) = tv_start g"
  by (simp_all add: log_def)

lemma logs_Nil [simp]: "logs [] g = g"
  by (simp add: logs_def)

lemma logs_logs [simp]: "logs ys (logs xs g) = logs (xs @ ys) g"
  by (simp add: logs_def)

lemma log_logs: "log f c g = logs [(f, c)] g"
  by (simp add: logs_def log_def)

lemma iso_packets_loop_ok:
  "\<forall>i\<in>set is. i < length (xfr_iso_packet_desc xfr) \<and> pack_ok xfr i \<Longrightarrow>
   iso_packets_loop is xfr g = Go () (logs (map (pack_print xfr) is) g)"
  by (induction "is" arbitrary: g) (simp_all add: pack_ok_def pack_print_def log_logs Let_def)

lemma iso_packets_loop_bad:
  "\<forall>i\<in>set is. i < length (xfr_iso_packet_desc xfr) \<Longrightarrow> \<exists>i\<in>set is. \<not> pack_ok xfr i \<Longrightarrow>
   iso_packets_loop is xfr g =
     Stop (Exited 5)
       (logs (map (pack_print xfr) (takeWhile (pack_ok xfr) is)
              @ pack_error xfr (hd (dropWhile (pack_ok xfr) is))) g)"
proof (induction "is" arbitrary: g)
  case Nil
  then show ?case by simp
next
  case (Cons i "is")
  show ?case
  proof (cases "pack_ok xfr i")
    case True
    with Cons.prems have "\<exists>j\<in>set is. \<not> pack_ok xfr j" by auto
    with Cons True show ?thesis
      by (simp add: pack_ok_def pack_print_def log_logs Let_def)
  next
    case False
    with Cons.prems show ?thesis
      by (simp add: pack_ok_def pack_error_def log_logs Let_def)
  qed
qed

lemma dump_loop_ok:
  "\<forall>i\<in>set is. i < length (xfr_buffer xfr) \<Longrightarrow>
   dump_loop is xfr g = Go () (logs (concat (map (dump_print xfr) is)) g)"
proof (induction "is" arbitrary: g)
  case Nil
  then show ?case by simp
next
  case (Cons i "is")
  have "i mod 16 = 0 \<Longrightarrow> i mod 8 = 0" by presburger
  with Cons show ?case
    by (simp add: dump_print_def log_logs Let_def)
qed

lemma cb_xfr_completed:
  assumes "xfr_status xfr = LIBUSB_TRANSFER_COMPLETED"
    and "in_bounds xfr"
    and "xfr_type xfr = LIBUSB_TRANSFER_TYPE_ISOCHRONOUS \<longrightarrow>
           (\<forall>i < nat (sint (xfr_num_iso_packets xfr)). pack_ok xfr i)"
  shows "cb_xfr p xfr rc g =
     (if sint rc < 0
      then Stop (Exited 1)
             (logs (cb_prints xfr @ (Fn_cb_xfr, Libusb_submit_transfer p) # resubmit_error)
                (counted xfr g))
      else Go () (logs (cb_prints xfr @ [(Fn_cb_xfr, Libusb_submit_transfer p)]) (counted xfr g)))"
proof -
  have iso: "xfr_type xfr = LIBUSB_TRANSFER_TYPE_ISOCHRONOUS \<Longrightarrow>
      iso_packets_loop [0 ..< nat (sint (xfr_num_iso_packets xfr))] xfr g
        = Go () (logs (map (pack_print xfr) [0 ..< nat (sint (xfr_num_iso_packets xfr))]) g)"
    using assms(2,3) by (intro iso_packets_loop_ok) (auto simp: in_bounds_def)
  have dump: "dump_loop [0 ..< nat (sint (xfr_actual_length xfr))] xfr g'
        = Go () (logs (concat (map (dump_print xfr) [0 ..< nat (sint (xfr_actual_length xfr))])) g')"
    for g'
    using assms(2) by (intro dump_loop_ok) (auto simp: in_bounds_def)
  show ?thesis
    using assms(1)
    by (simp add: cb_xfr_def iso dump cb_prints_def length_print_def resubmit_error_def
        counted_def log_logs logs_def Let_def)
qed

lemma cb_xfr_status:
  "xfr_status xfr \<noteq> LIBUSB_TRANSFER_COMPLETED \<Longrightarrow>
   cb_xfr p xfr rc g =
     Stop (Exited 3)
       (logs [(Fn_cb_xfr, Fprintf_stderr ''transfer status %d\<newline>'' [Arg_d (sint (xfr_status xfr))]),
              (Fn_cb_xfr, Libusb_free_transfer p), (Fn_cb_xfr, Exit_call 3)] g)"
  by (simp add: cb_xfr_def log_logs)

lemma cb_xfr_bad_packet:
  assumes "xfr_status xfr = LIBUSB_TRANSFER_COMPLETED"
    and "xfr_type xfr = LIBUSB_TRANSFER_TYPE_ISOCHRONOUS"
    and "nat (sint (xfr_num_iso_packets xfr)) \<le> length (xfr_iso_packet_desc xfr)"
    and "\<exists>i < nat (sint (xfr_num_iso_packets xfr)). \<not> pack_ok xfr i"
  shows "cb_xfr p xfr rc g =
     Stop (Exited 5)
       (logs (map (pack_print xfr)
                (takeWhile (pack_ok xfr) [0 ..< nat (sint (xfr_num_iso_packets xfr))])
              @ pack_error xfr
                  (hd (dropWhile (pack_ok xfr) [0 ..< nat (sint (xfr_num_iso_packets xfr))]))) g)"
proof -
  have "iso_packets_loop [0 ..< nat (sint (xfr_num_iso_packets xfr))] xfr g =
     Stop (Exited 5)
       (logs (map (pack_print xfr)
                (takeWhile (pack_ok xfr) [0 ..< nat (sint (xfr_num_iso_packets xfr))])
              @ pack_error xfr
                  (hd (dropWhile (pack_ok xfr) [0 ..< nat (sint (xfr_num_iso_packets xfr))]))) g)"
    using assms(3,4) by (intro iso_packets_loop_bad) auto
  with assms(1,2) show ?thesis
    by (simp add: cb_xfr_def)
qed

subsection \<open>Rules for postconditions\<close>

lemma ensures_Stop [simp]: "ensures (Stop h g) S Q = S h g"
  and ensures_Go [simp]: "ensures (Go a g) S Q = Q a g"
  by (simp_all add: ensures_def)

lemma ensures_bind:
  "ensures r S R \<Longrightarrow> (\<And>a g. R a g \<Longrightarrow> ensures (f a g) S Q) \<Longrightarrow> ensures (bind r f) S Q"
  by (cases r) simp_all

lemma ensures_mono:
  "ensures r S Q \<Longrightarrow> (\<And>h g. S h g \<Longrightarrow> S' h g) \<Longrightarrow> (\<And>a g. Q a g \<Longrightarrow> Q' a g) \<Longrightarrow>
   ensures r S' Q'"
  by (cases r) simp_all

subsection \<open>The signal handler\<close>

lemma sig_frame_refl [simp]: "sig_frame g g"
  by (simp add: sig_frame_def)

lemma sig_frame_trans:
  assumes "sig_frame g g'" and "sig_frame g' g''"
  shows "sig_frame g g''"
proof -
  from assms(1) obtain evs where 1: "trace g' = trace g @ evs" "\<forall>e\<in>set evs. measure_event e"
    "do_exit g' = do_exit g \<or> do_exit g' = 1 \<and> evs \<noteq> []"
    unfolding sig_frame_def by blast
  from assms(2) obtain evs' where 2: "trace g'' = trace g' @ evs'" "\<forall>e\<in>set evs'. measure_event e"
    "do_exit g'' = do_exit g' \<or> do_exit g'' = 1 \<and> evs' \<noteq> []"
    unfolding sig_frame_def by blast
  have "trace g'' = trace g @ (evs @ evs')" "\<forall>e\<in>set (evs @ evs'). measure_event e"
    "do_exit g'' = do_exit g \<or> do_exit g'' = 1 \<and> evs @ evs' \<noteq> []"
    using 1 2 by auto
  then have "\<exists>evs. trace g'' = trace g @ evs \<and> (\<forall>e\<in>set evs. measure_event e)
          \<and> (do_exit g'' = do_exit g \<or> do_exit g'' = 1 \<and> evs \<noteq> [])"
    by blast
  with assms show ?thesis
    unfolding sig_frame_def by simp
qed

lemma measure_fn_frame:
  "ensures (measure_fn tv g)
     (\<lambda>h g'. h = Undefined_behaviour \<and> sig_frame g g')
     (\<lambda>_ g'. sig_frame g g' \<and> trace g' \<noteq> trace g \<and> do_exit g' = do_exit g)"
  by (simp add: measure_fn_def Let_def sig_frame_def)

lemma sig_frame_do_exit:
  assumes "sig_frame g g'" and "trace g' \<noteq> trace g"
  shows "sig_frame g (g'\<lparr>do_exit := 1\<rparr>)"
proof -
  from assms(1) obtain evs where 1: "trace g' = trace g @ evs" "\<forall>e\<in>set evs. measure_event e"
    unfolding sig_frame_def by blast
  with assms(2) have "evs \<noteq> []" by auto
  with 1 have "\<exists>evs. trace g' = trace g @ evs \<and> (\<forall>e\<in>set evs. measure_event e) \<and> evs \<noteq> []"
    by blast
  with assms(1) show ?thesis
    unfolding sig_frame_def by simp blast
qed

lemma sig_hdlr_frame:
  "ensures (sig_hdlr tv g)
     (\<lambda>h g'. h = Undefined_behaviour \<and> sig_frame g g') (\<lambda>_ g'. sig_frame g g' \<and> do_exit g' = 1)"
  unfolding sig_hdlr_def
  by (rule ensures_bind [OF measure_fn_frame]) (simp add: sig_frame_do_exit)

lemma deliver_frame:
  "ensures (deliver tvs g)
     (\<lambda>h g'. h = Undefined_behaviour \<and> sig_frame g g') (\<lambda>_ g'. sig_frame g g')"
proof (induction tvs arbitrary: g)
  case Nil
  show ?case by simp
next
  case (Cons tv tvs)
  show ?case
    unfolding deliver.simps
  proof (rule ensures_bind)
    show "ensures (sig_hdlr tv g)
       (\<lambda>h g'. h = Undefined_behaviour \<and> sig_frame g g') (\<lambda>_ g'. sig_frame g g')"
      by (rule ensures_mono [OF sig_hdlr_frame]) simp_all
  next
    fix a g' assume *: "sig_frame g g'"
    show "ensures (deliver tvs g')
       (\<lambda>h g'. h = Undefined_behaviour \<and> sig_frame g g') (\<lambda>_ g'. sig_frame g g')"
      by (rule ensures_mono [OF Cons.IH [of g']]) (simp_all add: sig_frame_trans [OF *])
  qed
qed

lemma lib_call_frame:
  "ensures (lib_call env pt f c g)
     (\<lambda>h g'. h = Undefined_behaviour \<and> sig_frame (log f c g) g')
     (\<lambda>_ g'. sig_frame (log f c g) g')"
  unfolding lib_call_def by (rule deliver_frame)

subsection \<open>The callback\<close>

lemma cb_ext_refl [simp]: "cb_ext g g"
  unfolding cb_ext_def by (rule exI [of _ "[]"]) simp

lemma cb_ext_log:
  assumes "cb_ext (log Fn_cb_xfr c g) g'" and "cb_event (Fn_cb_xfr, c)"
  shows "cb_ext g g'"
proof -
  from assms(1) obtain evs where "g' = logs evs (log Fn_cb_xfr c g)" "\<forall>e\<in>set evs. cb_event e"
    unfolding cb_ext_def by blast
  with assms(2) have "g' = logs ((Fn_cb_xfr, c) # evs) g \<and> (\<forall>e\<in>set ((Fn_cb_xfr, c) # evs). cb_event e)"
    by (simp add: log_logs)
  then show ?thesis unfolding cb_ext_def by blast
qed

lemma cb_ext_logI:
  assumes "cb_ext g g'" and "cb_event (Fn_cb_xfr, c)"
  shows "cb_ext g (log Fn_cb_xfr c g')"
proof -
  from assms(1) obtain evs where "g' = logs evs g" "\<forall>e\<in>set evs. cb_event e"
    unfolding cb_ext_def by blast
  with assms(2) have "log Fn_cb_xfr c g' = logs (evs @ [(Fn_cb_xfr, c)]) g
      \<and> (\<forall>e\<in>set (evs @ [(Fn_cb_xfr, c)]). cb_event e)"
    by (simp add: log_logs)
  then show ?thesis unfolding cb_ext_def by blast
qed

lemma cb_ext_trans:
  assumes "cb_ext g g1" and "cb_ext g1 g2"
  shows "cb_ext g g2"
proof -
  from assms(1) obtain evs1 where 1: "g1 = logs evs1 g" "\<forall>e\<in>set evs1. cb_event e"
    unfolding cb_ext_def by blast
  from assms(2) obtain evs2 where 2: "g2 = logs evs2 g1" "\<forall>e\<in>set evs2. cb_event e"
    unfolding cb_ext_def by blast
  have "g2 = logs (evs1 @ evs2) g \<and> (\<forall>e\<in>set (evs1 @ evs2). cb_event e)"
    using 1 2 by auto
  then show ?thesis unfolding cb_ext_def by blast
qed

lemma cb_ext_printf:
  assumes "cb_ext g g1" and "cb_ext (log Fn_cb_xfr (Printf fmt args) g1) g2"
  shows "cb_ext g g2"
proof -
  have "cb_ext g1 g2"
    using assms(2) by (rule cb_ext_log) simp
  with assms(1) show ?thesis by (rule cb_ext_trans)
qed

lemma iso_packets_loop_frame:
  "ensures (iso_packets_loop is xfr g)
     (\<lambda>h g'. h \<noteq> Still_running \<and> cb_ext g g') (\<lambda>_ g'. cb_ext g g')"
proof (induction "is" arbitrary: g)
  case Nil
  show ?case by simp
next
  case (Cons i "is")
  have step: "ensures (iso_packets_loop is xfr (log Fn_cb_xfr (Printf fmt args) g))
     (\<lambda>h g'. h \<noteq> Still_running \<and> cb_ext g g') (\<lambda>_ g'. cb_ext g g')" for fmt args
    by (rule ensures_mono [OF Cons.IH]) (auto elim: cb_ext_printf [OF cb_ext_refl])
  show ?case
    by (simp add: Let_def step cb_ext_logI)
qed

lemma dump_loop_frame:
  "ensures (dump_loop is xfr g)
     (\<lambda>h g'. h \<noteq> Still_running \<and> cb_ext g g') (\<lambda>_ g'. cb_ext g g')"
proof (induction "is" arbitrary: g)
  case Nil
  show ?case by simp
next
  case (Cons i "is")
  have two: "cb_ext g (log Fn_cb_xfr (Printf fmt args) g)" for fmt args
    by (rule cb_ext_logI) simp_all
  have step: "ensures (dump_loop is xfr (log Fn_cb_xfr (Printf fmt' args') (log Fn_cb_xfr (Printf fmt args) g)))
     (\<lambda>h g'. h \<noteq> Still_running \<and> cb_ext g g') (\<lambda>_ g'. cb_ext g g')" for fmt args fmt' args'
    by (rule ensures_mono [OF Cons.IH]) (auto elim: cb_ext_printf [OF two])
  show ?case
    by (simp add: Let_def step)
qed

lemma cb_ext_frame:
  assumes "cb_ext g g'"
  shows "cb_frame g g'" and "num_bytes g' = num_bytes g" and "num_xfer g' = num_xfer g"
proof -
  from assms obtain evs where *: "g' = logs evs g" "\<forall>e\<in>set evs. cb_event e"
    unfolding cb_ext_def by blast
  then have "trace g' = trace g @ evs \<and> (\<forall>e\<in>set evs. cb_event e)"
    by (simp add: logs_def)
  then show "cb_frame g g'"
    unfolding cb_frame_def using * by (auto simp: logs_def)
  show "num_bytes g' = num_bytes g" "num_xfer g' = num_xfer g"
    using * by (simp_all add: logs_def)
qed

lemma cb_frame_log:
  assumes "cb_frame g g'" and "cb_event (Fn_cb_xfr, c)"
  shows "cb_frame g (log Fn_cb_xfr c g')"
proof -
  from assms(1) obtain evs where "trace g' = trace g @ evs" "\<forall>e\<in>set evs. cb_event e"
    unfolding cb_frame_def by blast
  with assms(2) have "trace (log Fn_cb_xfr c g') = trace g @ (evs @ [(Fn_cb_xfr, c)])
      \<and> (\<forall>e\<in>set (evs @ [(Fn_cb_xfr, c)]). cb_event e)"
    by simp
  then have "\<exists>evs. trace (log Fn_cb_xfr c g') = trace g @ evs \<and> (\<forall>e\<in>set evs. cb_event e)"
    by blast
  with assms(1) show ?thesis
    unfolding cb_frame_def by simp
qed

lemma cb_frame_counted: "cb_frame g g' \<Longrightarrow> cb_frame g (counted xfr g')"
  by (simp add: cb_frame_def counted_def)

lemma cb_xfr_frame:
  "ensures (cb_xfr p xfr rc g)
     (\<lambda>h g'. h \<noteq> Still_running \<and> cb_frame g g')
     (\<lambda>_ g'. cb_frame g g' \<and> num_bytes g' = num_bytes g + scast (xfr_actual_length xfr)
          \<and> num_xfer g' = num_xfer g + 1)"
proof (cases "xfr_status xfr = LIBUSB_TRANSFER_COMPLETED")
  case False
  have "cb_frame g g" by (simp add: cb_ext_frame)
  then show ?thesis
    using False by (simp add: cb_xfr_status logs_def cb_frame_def)
next
  case True
  let ?S = "\<lambda>h g'. h \<noteq> Still_running \<and> cb_frame g g'"
  let ?Q = "\<lambda>_ g'. cb_frame g g' \<and> num_bytes g' = num_bytes g + scast (xfr_actual_length xfr)
          \<and> num_xfer g' = num_xfer g + 1"
  have first: "ensures (if xfr_type xfr = LIBUSB_TRANSFER_TYPE_ISOCHRONOUS
              then iso_packets_loop [0 ..< nat (sint (xfr_num_iso_packets xfr))] xfr g
              else Go () g) ?S (\<lambda>_ g'. cb_ext g g')"
    by (auto intro: ensures_mono [OF iso_packets_loop_frame] simp: cb_ext_frame)
  have second: "ensures (dump_loop is xfr (log Fn_cb_xfr (Printf fmt args) g1)) ?S (\<lambda>_ g'. cb_ext g g')"
    if "cb_ext g g1" for g1 "is" fmt args
    by (rule ensures_mono [OF dump_loop_frame])
      (auto elim: cb_ext_printf [OF that] intro: cb_ext_frame(1))
  have third: "ensures
       (let g' = g2\<lparr>num_bytes := num_bytes g2 + scast (xfr_actual_length xfr)\<rparr>;
            g' = g'\<lparr>num_xfer := num_xfer g' + 1\<rparr>;
            g' = log Fn_cb_xfr (Libusb_submit_transfer p) g'
        in if sint rc < 0 then
             Stop (Exited 1)
               (log Fn_cb_xfr (Exit_call 1)
                 (log Fn_cb_xfr (Fprintf_stderr ''error re-submitting URB\<newline>'' []) g'))
           else Go () g') ?S ?Q"
    if "cb_ext g g2" for g2
  proof -
    have f: "cb_frame g g2" "num_bytes g2 = num_bytes g" "num_xfer g2 = num_xfer g"
      using cb_ext_frame [OF that] by simp_all
    have "cb_frame g (g2\<lparr>num_bytes := a, num_xfer := b\<rparr>)" for a b
      using f(1) by (simp add: cb_frame_def)
    then show ?thesis
      using f(2,3) by (simp add: Let_def cb_frame_log)
  qed
  show ?thesis
    apply (simp only: cb_xfr_def True simp_thms if_False)
    apply (rule ensures_bind [OF first])
    apply (rule ensures_bind [OF second])
     apply assumption
    apply (rule third)
    apply assumption
    done
qed

subsection \<open>Invariants of the trace\<close>

lemma before_append:
  assumes "before m P tr" and "(\<exists>e\<in>set tr. snd e = m) \<or> (\<forall>e\<in>set evs. \<not> P e)"
  shows "before m P (tr @ evs)"
proof (cases "\<exists>e\<in>set tr. snd e = m")
  case True
  then obtain e where "e \<in> set tr" "\<not> snd e \<noteq> m" by auto
  then have "takeWhile (\<lambda>e. snd e \<noteq> m) (tr @ evs) = takeWhile (\<lambda>e. snd e \<noteq> m) tr"
    by (rule takeWhile_append1)
  with assms(1) show ?thesis by (simp add: before_def)
next
  case False
  then have all: "\<forall>e\<in>set tr. snd e \<noteq> m" by blast
  then have 1: "takeWhile (\<lambda>e. snd e \<noteq> m) (tr @ evs) = tr @ takeWhile (\<lambda>e. snd e \<noteq> m) evs"
    by (intro takeWhile_append2) auto
  have 2: "\<forall>e\<in>set evs. \<not> P e" using assms(2) False by blast
  have "takeWhile (\<lambda>e. snd e \<noteq> m) tr = tr" using all by (simp add: takeWhile_eq_all_conv)
  with assms(1) have 3: "\<forall>e\<in>set tr. \<not> P e" by (simp add: before_def)
  have "\<not> P e" if "e \<in> set (tr @ takeWhile (\<lambda>e. snd e \<noteq> m) evs)" for e
    using that 2 3 by (auto dest: set_takeWhileD)
  then show ?thesis
    unfolding before_def 1 by blast
qed

lemma measure_event_fst: "measure_event e \<Longrightarrow> fst e = Fn_measure"
  by (cases e) simp

lemma cb_event_fst: "cb_event e \<Longrightarrow> fst e = Fn_cb_xfr"
  by (cases e) simp

lemma measure_event_no_transfer: "measure_event e \<Longrightarrow> \<not> transfer_call (snd e)"
  by (cases e) (auto simp: transfer_call_def split: call.splits)

lemma foreign_refl [simp]: "foreign g g"
  by (simp add: foreign_def)

lemma foreign_trans:
  assumes "foreign g g'" and "foreign g' g''"
  shows "foreign g g''"
proof -
  from assms(1) obtain evs where 1: "trace g' = trace g @ evs"
    "\<forall>e\<in>set evs. measure_event e \<or> cb_event e"
    "do_exit g' = do_exit g \<or> do_exit g' = 1 \<and> (\<exists>e\<in>set evs. measure_event e)"
    unfolding foreign_def by blast
  from assms(2) obtain evs' where 2: "trace g'' = trace g' @ evs'"
    "\<forall>e\<in>set evs'. measure_event e \<or> cb_event e"
    "do_exit g'' = do_exit g' \<or> do_exit g'' = 1 \<and> (\<exists>e\<in>set evs'. measure_event e)"
    unfolding foreign_def by blast
  have "trace g'' = trace g @ (evs @ evs')" "\<forall>e\<in>set (evs @ evs'). measure_event e \<or> cb_event e"
    "do_exit g'' = do_exit g \<or> do_exit g'' = 1 \<and> (\<exists>e\<in>set (evs @ evs'). measure_event e)"
    using 1 2 by auto
  then have "\<exists>evs. trace g'' = trace g @ evs \<and> (\<forall>e\<in>set evs. measure_event e \<or> cb_event e)
          \<and> (do_exit g'' = do_exit g \<or> do_exit g'' = 1 \<and> (\<exists>e\<in>set evs. measure_event e))"
    by blast
  with assms show ?thesis
    unfolding foreign_def by simp
qed

lemma sig_frame_foreign:
  assumes "sig_frame g g'"
  shows "foreign g g'"
proof -
  from assms obtain evs where 1: "trace g' = trace g @ evs" "\<forall>e\<in>set evs. measure_event e"
    "do_exit g' = do_exit g \<or> do_exit g' = 1 \<and> evs \<noteq> []"
    unfolding sig_frame_def by blast
  have "do_exit g' = do_exit g \<or> do_exit g' = 1 \<and> (\<exists>e\<in>set evs. measure_event e)"
    using 1(2,3) by (cases evs) auto
  with 1 have "\<exists>evs. trace g' = trace g @ evs \<and> (\<forall>e\<in>set evs. measure_event e \<or> cb_event e)
          \<and> (do_exit g' = do_exit g \<or> do_exit g' = 1 \<and> (\<exists>e\<in>set evs. measure_event e))"
    by blast
  with assms show ?thesis
    unfolding foreign_def sig_frame_def by simp
qed

lemma cb_frame_foreign:
  assumes "cb_frame g g'"
  shows "foreign g g'"
proof -
  from assms obtain evs where 1: "trace g' = trace g @ evs" "\<forall>e\<in>set evs. cb_event e"
    unfolding cb_frame_def by blast
  then have "\<exists>evs. trace g' = trace g @ evs \<and> (\<forall>e\<in>set evs. measure_event e \<or> cb_event e)"
    by blast
  with assms show ?thesis
    unfolding foreign_def cb_frame_def by simp
qed

lemma foreign_own: 
  assumes "foreign g g'"
  shows "own (trace g') = own (trace g)"
proof -
  from assms obtain evs where 1: "trace g' = trace g @ evs"
    "\<forall>e\<in>set evs. measure_event e \<or> cb_event e"
    unfolding foreign_def by blast
  have "filter (\<lambda>e. fst e = Fn_main \<or> fst e = Fn_benchmark_in) evs = []"
    using 1(2) by (auto simp: filter_empty_conv dest: measure_event_fst cb_event_fst)
  with 1(1) show ?thesis by (simp add: own_def)
qed

lemma foreign_has: "foreign g g' \<Longrightarrow> has m g \<Longrightarrow> has m g'"
  by (auto simp: foreign_def has_def)

lemma world_foreign:
  assumes "world env g" and "foreign g g'"
    and "has (claim_call env) g \<and> has handle_call g \<or> sig_frame g g'"
  shows "world env g'"
proof -
  from assms(2) obtain evs where 1: "trace g' = trace g @ evs"
    "\<forall>e\<in>set evs. measure_event e \<or> cb_event e"
    "do_exit g' = do_exit g \<or> do_exit g' = 1 \<and> (\<exists>e\<in>set evs. measure_event e)"
    unfolding foreign_def by blast
  have m: "\<forall>e\<in>set evs. measure_event e" if "sig_frame g g'"
  proof -
    from that obtain evs' where "trace g' = trace g @ evs'" "\<forall>e\<in>set evs'. measure_event e"
      unfolding sig_frame_def by blast
    with 1(1) show ?thesis by simp
  qed
  have m1: "\<forall>e\<in>set evs. \<not> transfer_call (snd e)" if "sig_frame g g'"
    using m [OF that] measure_event_no_transfer by blast
  have m2: "\<forall>e\<in>set evs. \<not> fst e = Fn_cb_xfr" if "sig_frame g g'"
    using m [OF that] measure_event_fst by fastforce
  have a: "before (claim_call env) (\<lambda>e. transfer_call (snd e)) (trace g')"
    unfolding 1(1)
  proof (rule before_append)
    show "before (claim_call env) (\<lambda>e. transfer_call (snd e)) (trace g)"
      using assms(1) by (simp add: world_def)
    show "(\<exists>e\<in>set (trace g). snd e = claim_call env) \<or> (\<forall>e\<in>set evs. \<not> transfer_call (snd e))"
      using assms(3) m1 by (auto simp: has_def)
  qed
  have b: "before handle_call (\<lambda>e. fst e = Fn_cb_xfr) (trace g')"
    unfolding 1(1)
  proof (rule before_append)
    show "before handle_call (\<lambda>e. fst e = Fn_cb_xfr) (trace g)"
      using assms(1) by (simp add: world_def)
    show "(\<exists>e\<in>set (trace g). snd e = handle_call) \<or> (\<forall>e\<in>set evs. \<not> fst e = Fn_cb_xfr)"
      using assms(3) m2 by (auto simp: has_def)
  qed
  have c: "\<forall>e\<in>set (trace g'). fst e = Fn_measure \<longrightarrow> measure_event e"
    using assms(1) 1(1,2) by (auto simp: world_def dest: cb_event_fst)
  have d: "\<forall>e\<in>set (trace g'). fst e = Fn_cb_xfr \<longrightarrow> cb_event e"
    using assms(1) 1(1,2) by (auto simp: world_def dest: measure_event_fst)
  have e: "do_exit g' = 0 \<or> do_exit g' = 1 \<and> (\<exists>e\<in>set (trace g'). fst e = Fn_measure)"
    using assms(1) 1(1,3) by (auto simp: world_def dest: measure_event_fst)
  from a b c d e show ?thesis
    unfolding world_def by blast
qed

lemma world_log:
  assumes "world env g" and "f = Fn_main \<or> f = Fn_benchmark_in"
    and "transfer_call c \<longrightarrow> has (claim_call env) g"
  shows "world env (log f c g)"
proof -
  have a: "before (claim_call env) (\<lambda>e. transfer_call (snd e)) (trace g @ [(f, c)])"
    using assms(1,3) by (intro before_append) (auto simp: world_def has_def)
  have b: "before handle_call (\<lambda>e. fst e = Fn_cb_xfr) (trace g @ [(f, c)])"
    using assms(1,2) by (intro before_append) (auto simp: world_def)
  show ?thesis
    using assms(1,2) a b unfolding world_def by auto
qed

lemma world_update [simp]:
  "world env (g\<lparr>devh := d\<rparr>) = world env g"
  "world env (g\<lparr>tv_start := t\<rparr>) = world env g"
  by (simp_all add: world_def)

lemma has_log [simp]: "has m (log f c g) = (c = m \<or> has m g)"
  by (auto simp: has_def)

lemma has_update [simp]:
  "has m (g\<lparr>devh := d\<rparr>) = has m g"
  "has m (g\<lparr>tv_start := t\<rparr>) = has m g"
  by (simp_all add: has_def)

subsection \<open>Dispatch and the event loop\<close>

lemma tally_refl [simp]: "tally g [] g"
  by (simp add: tally_def total_bytes_def)

lemma tally_trans: "tally g xs g' \<Longrightarrow> tally g' ys g'' \<Longrightarrow> tally g (xs @ ys) g''"
  by (simp add: tally_def total_bytes_def)

lemma tally_log [simp]: "tally (log f c g) xs g' = tally g xs g'"
  by (simp add: tally_def)

lemma sig_frame_counters:
  "sig_frame g g' \<Longrightarrow> num_bytes g' = num_bytes g"
  "sig_frame g g' \<Longrightarrow> num_xfer g' = num_xfer g"
  by (simp_all add: sig_frame_def)

lemma happen_spec:
  "ensures (happen h g)
     (\<lambda>hl g'. hl \<noteq> Still_running \<and> foreign g g')
     (\<lambda>_ g'. foreign g g' \<and> tally g (completed [h]) g')"
proof (cases h)
  case (Completion p xfr rc)
  show ?thesis
    unfolding Completion happen.simps
    by (rule ensures_mono [OF cb_xfr_frame])
       (simp_all add: cb_frame_foreign tally_def total_bytes_def)
next
  case (Sigint tv)
  show ?thesis
    unfolding Sigint happen.simps
    by (rule ensures_mono [OF sig_hdlr_frame])
       (simp_all add: sig_frame_foreign sig_frame_counters tally_def total_bytes_def)
qed

lemma completed_Cons: "completed (h # hs) = completed [h] @ completed hs"
  by (cases h) simp_all

lemma dispatch_spec:
  "ensures (dispatch hs g)
     (\<lambda>hl g'. hl \<noteq> Still_running \<and> foreign g g')
     (\<lambda>_ g'. foreign g g' \<and> tally g (completed hs) g')"
proof (induction hs arbitrary: g)
  case Nil
  show ?case by simp
next
  case (Cons h hs)
  show ?case
    unfolding dispatch.simps
  proof (rule ensures_bind [OF happen_spec])
    fix a g1 assume *: "foreign g g1 \<and> tally g (completed [h]) g1"
    show "ensures (dispatch hs g1)
       (\<lambda>hl g'. hl \<noteq> Still_running \<and> foreign g g')
       (\<lambda>_ g'. foreign g g' \<and> tally g (completed (h # hs)) g')"
    proof (rule ensures_mono [OF Cons.IH [of g1]])
      fix hl g' assume "hl \<noteq> Still_running \<and> foreign g1 g'"
      with * show "hl \<noteq> Still_running \<and> foreign g g'"
        by (blast intro: foreign_trans)
    next
      fix b g' assume "foreign g1 g' \<and> tally g1 (completed hs) g'"
      with * show "foreign g g' \<and> tally g (completed (h # hs)) g'"
        unfolding completed_Cons [of h hs] by (blast intro: foreign_trans tally_trans)
    qed
  qed
qed

lemma libusb_handle_events_spec:
  "ensures (libusb_handle_events r g)
     (\<lambda>hl g'. hl \<noteq> Still_running \<and> foreign (log Fn_main handle_call g) g')
     (\<lambda>rc g'. rc = r_rc r \<and> foreign (log Fn_main handle_call g) g'
         \<and> tally g (completed (r_happenings r)) g')"
  unfolding libusb_handle_events_def handle_call_def [symmetric]
  by (rule ensures_bind [OF dispatch_spec]) simp

lemma own_snoc [simp]:
  "own (tr @ [(Fn_main, c)]) = own tr @ [c]"
  "own (tr @ [(Fn_benchmark_in, c)]) = own tr @ [c]"
  by (simp_all add: own_def)

lemma looped_round:
  assumes "world env g" and "has (claim_call env) g" and "foreign (log Fn_main handle_call g) g1"
  shows "looped env (r # rs) g (Suc 0) g1"
    and "looped env rs g1 k g' \<Longrightarrow> looped env (r # rs) g (Suc k) g'"
proof -
  have w0: "world env (log Fn_main handle_call g)"
    using assms(1) by (rule world_log) (simp_all add: transfer_call_def handle_call_def)
  have w1: "world env g1"
    using w0 assms(3) by (rule world_foreign) (simp add: assms(2))
  have o1: "own (trace g1) = own (trace g) @ [handle_call]"
    using foreign_own [OF assms(3)] by simp
  have f1: "devh g1 = devh g" "tv_start g1 = tv_start g"
    using assms(3) by (simp_all add: foreign_def)
  have h1: "has (claim_call env) g1"
    using foreign_has [OF assms(3)] assms(2) by simp
  show "looped env (r # rs) g (Suc 0) g1"
    using w1 o1 f1 h1 by (simp add: looped_def)
  show "looped env (r # rs) g (Suc k) g'" if "looped env rs g1 k g'"
    using that o1 f1 by (simp add: looped_def)
qed

lemma tally_round:
  assumes "tally g (completed (r_happenings r)) g1"
  shows "tally g (rounds_completed (take (Suc 0) (r # rs))) g1"
    and "tally g1 (rounds_completed (take k rs)) g' \<Longrightarrow>
         tally g (rounds_completed (take (Suc k) (r # rs))) g'"
  using assms tally_trans [of g "completed (r_happenings r)" g1]
  by (simp_all add: rounds_completed_def)

lemma event_loop_spec:
  assumes "world env g" and "has (claim_call env) g"
  shows "ensures (event_loop rs rc g)
     (\<lambda>hl g'. \<exists>k. looped env rs g k g'
         \<and> (if hl = Still_running
            then k = length rs \<and> tally g (rounds_completed rs) g' \<and> do_exit g' = 0
            else 0 < k))
     (\<lambda>rc' g'. \<exists>k. looped env rs g k g' \<and> tally g (rounds_completed (take k rs)) g'
         \<and> (do_exit g' \<noteq> 0 \<or> 0 < k \<and> rc' = r_rc (rs ! (k - 1)) \<and> rc' \<noteq> LIBUSB_SUCCESS)
         \<and> (k = 0 \<longrightarrow> rc' = rc))"
  using assms
proof (induction rs arbitrary: g rc)
  case Nil
  then have "looped env [] g 0 g" by (simp add: looped_def)
  then show ?case
    by (auto simp: rounds_completed_def intro!: exI [of _ 0])
next
  case (Cons r rs)
  let ?S = "\<lambda>hl g'. \<exists>k. looped env (r # rs) g k g'
         \<and> (if hl = Still_running
            then k = length (r # rs) \<and> tally g (rounds_completed (r # rs)) g' \<and> do_exit g' = 0
            else 0 < k)"
  let ?Q = "\<lambda>rc' g'. \<exists>k. looped env (r # rs) g k g'
         \<and> tally g (rounds_completed (take k (r # rs))) g'
         \<and> (do_exit g' \<noteq> 0 \<or> 0 < k \<and> rc' = r_rc ((r # rs) ! (k - 1)) \<and> rc' \<noteq> LIBUSB_SUCCESS)
         \<and> (k = 0 \<longrightarrow> rc' = rc)"
  show ?case
  proof (cases "do_exit g \<noteq> 0")
    case True
    have "looped env (r # rs) g 0 g"
      using Cons.prems by (simp add: looped_def)
    with True have "?Q rc g"
      by (intro exI [of _ 0]) (simp add: rounds_completed_def)
    with True show ?thesis by simp
  next
    case False
    have body: "ensures
        (bind (libusb_handle_events r g)
           (\<lambda>rc g. if rc \<noteq> LIBUSB_SUCCESS then Go rc g else event_loop rs rc g)) ?S ?Q"
    proof (rule ensures_bind [OF ensures_mono [OF libusb_handle_events_spec]])
      fix hl g1 assume "hl \<noteq> Still_running \<and> foreign (log Fn_main handle_call g) g1"
      then have "looped env (r # rs) g (Suc 0) g1 \<and> hl \<noteq> Still_running"
        using looped_round(1) [OF Cons.prems] by simp
      then show "?S hl g1"
        by (intro exI [of _ "Suc 0"]) simp
    next
      fix rc1 g1
      assume "rc1 = r_rc r \<and> foreign (log Fn_main handle_call g) g1
         \<and> tally g (completed (r_happenings r)) g1"
      then show "rc1 = r_rc r \<and> foreign (log Fn_main handle_call g) g1
         \<and> tally g (completed (r_happenings r)) g1" .
    next
      fix rc1 g1
      assume *: "rc1 = r_rc r \<and> foreign (log Fn_main handle_call g) g1
         \<and> tally g (completed (r_happenings r)) g1"
      then have f: "foreign (log Fn_main handle_call g) g1" by simp
      note l1 = looped_round [OF Cons.prems f]
      note t1 = tally_round [of g r g1]
      show "ensures (if rc1 \<noteq> LIBUSB_SUCCESS then Go rc1 g1 else event_loop rs rc1 g1) ?S ?Q"
      proof (cases "rc1 \<noteq> LIBUSB_SUCCESS")
        case True
        have "?Q rc1 g1"
          using * True l1(1) t1(1) by (intro exI [of _ "Suc 0"]) simp
        with True show ?thesis by simp
      next
        case False
        have w1: "world env g1" "has (claim_call env) g1"
          using l1(1) by (simp_all add: looped_def)
        have "ensures (event_loop rs rc1 g1) ?S ?Q"
        proof (rule ensures_mono [OF Cons.IH [OF w1]])
          fix hl g'
          assume "\<exists>k. looped env rs g1 k g'
             \<and> (if hl = Still_running
                then k = length rs \<and> tally g1 (rounds_completed rs) g' \<and> do_exit g' = 0
                else 0 < k)"
          then obtain k where k: "looped env rs g1 k g'"
            "if hl = Still_running
                then k = length rs \<and> tally g1 (rounds_completed rs) g' \<and> do_exit g' = 0
                else 0 < k" by blast
          have "looped env (r # rs) g (Suc k) g'" using l1(2) k(1) by simp
          moreover have "tally g (rounds_completed (r # rs)) g'" if "hl = Still_running"
            using t1(2) [of k rs g'] k(2) * that by simp
          ultimately show "?S hl g'"
            using k(2) by (intro exI [of _ "Suc k"]) (simp split: if_splits)
        next
          fix rc' g'
          assume "\<exists>k. looped env rs g1 k g' \<and> tally g1 (rounds_completed (take k rs)) g'
             \<and> (do_exit g' \<noteq> 0 \<or> 0 < k \<and> rc' = r_rc (rs ! (k - 1)) \<and> rc' \<noteq> LIBUSB_SUCCESS)
             \<and> (k = 0 \<longrightarrow> rc' = rc1)"
          then obtain k where k: "looped env rs g1 k g'"
            "tally g1 (rounds_completed (take k rs)) g'"
            "do_exit g' \<noteq> 0 \<or> 0 < k \<and> rc' = r_rc (rs ! (k - 1)) \<and> rc' \<noteq> LIBUSB_SUCCESS"
            "k = 0 \<longrightarrow> rc' = rc1" by blast
          have "looped env (r # rs) g (Suc k) g'" using l1(2) k(1) by simp
          moreover have "tally g (rounds_completed (take (Suc k) (r # rs))) g'"
            using t1(2) [of k rs g'] k(2) * by simp
          moreover have "do_exit g' \<noteq> 0
              \<or> rc' = r_rc ((r # rs) ! (Suc k - 1)) \<and> rc' \<noteq> LIBUSB_SUCCESS"
            using k(3) by (cases k) auto
          ultimately show "?Q rc' g'"
            by (intro exI [of _ "Suc k"]) auto
        qed
        with False show ?thesis by simp
      qed
    qed
    from False have eq: "event_loop (r # rs) rc g =
        bind (libusb_handle_events r g)
           (\<lambda>rc g. if rc \<noteq> LIBUSB_SUCCESS then Go rc g else event_loop rs rc g)"
      by simp
    show ?thesis
      unfolding eq by (rule body)
  qed
qed

subsection \<open>Steps of main\<close>

lemma own_has: "c \<in> set (own (trace g)) \<Longrightarrow> has c g"
  by (auto simp: own_def has_def)

lemma staged_log:
  assumes "staged env cs xs g" and "f = Fn_main \<or> f = Fn_benchmark_in"
    and "transfer_call c \<longrightarrow> claim_call env \<in> set cs"
  shows "staged env (cs @ [c]) xs (log f c g)"
proof -
  have "transfer_call c \<longrightarrow> has (claim_call env) g"
    using assms(1,3) own_has [of "claim_call env" g] by (simp add: staged_def)
  with assms(1,2) have "world env (log f c g)"
    by (intro world_log) (simp_all add: staged_def)
  with assms(1,2) show ?thesis
    by (auto simp: staged_def tally_def)
qed

lemma staged_update [simp]:
  "staged env cs xs (g\<lparr>devh := d\<rparr>) = staged env cs xs g"
  "staged env cs xs (g\<lparr>tv_start := t\<rparr>) = staged env cs xs g"
  by (simp_all add: staged_def tally_def)

lemma staged_sig:
  assumes "staged env cs xs g" and "sig_frame g g'"
  shows "staged env cs xs g'"
proof -
  have "world env g'"
    using assms by (intro world_foreign [of env g g'] sig_frame_foreign) (simp_all add: staged_def)
  moreover have "own (trace g') = own (trace g)"
    using assms(2) by (intro foreign_own sig_frame_foreign)
  ultimately show ?thesis
    using assms by (simp add: staged_def tally_def sig_frame_counters)
qed

lemma sig_frame_do_exit_mono: "sig_frame g g' \<Longrightarrow> do_exit g \<noteq> 0 \<Longrightarrow> do_exit g' \<noteq> 0"
  by (auto simp: sig_frame_def)

lemma bind_lib_call:
  assumes "staged env cs xs g" and "f = Fn_main \<or> f = Fn_benchmark_in"
    and "transfer_call c \<longrightarrow> claim_call env \<in> set cs"
    and "\<And>g'. staged env (cs @ [c]) xs g' \<Longrightarrow> S Undefined_behaviour g'"
    and "\<And>u g'. staged env (cs @ [c]) xs g' \<Longrightarrow> devh g' = devh g \<Longrightarrow> tv_start g' = tv_start g
          \<Longrightarrow> (do_exit g \<noteq> 0 \<longrightarrow> do_exit g' \<noteq> 0) \<Longrightarrow> ensures (k u g') S Q"
  shows "ensures (bind (lib_call env pt f c g) k) S Q"
proof (rule ensures_bind [OF ensures_mono [OF lib_call_frame]])
  note st = staged_log [OF assms(1,2,3)]
  fix h g' assume "h = Undefined_behaviour \<and> sig_frame (log f c g) g'"
  then show "S h g'"
    using assms(4) [of g'] staged_sig [OF st] by simp
next
  fix a :: unit and g' assume "sig_frame (log f c g) g'"
  then show "sig_frame (log f c g) g'" .
next
  note st = staged_log [OF assms(1,2,3)]
  fix u g' assume *: "sig_frame (log f c g) g'"
  show "ensures (k u g') S Q"
  proof (rule assms(5))
    show "staged env (cs @ [c]) xs g'" using staged_sig [OF st *] .
    show "devh g' = devh g" "tv_start g' = tv_start g"
      using * by (simp_all add: sig_frame_def)
    show "do_exit g \<noteq> 0 \<longrightarrow> do_exit g' \<noteq> 0"
      using sig_frame_do_exit_mono [OF *] by simp
  qed
qed

lemma run_bind_assoc: "bind (bind r f) k = bind r (\<lambda>a g. bind (f a g) k)"
  by (cases r) simp_all

lemma main_out_spec:
  assumes "staged env cs xs g" and "devh g = e_open env"
    and "\<And>cs' g'. prefix cs' (teardown env) \<Longrightarrow> staged env (cs @ cs') xs g' \<Longrightarrow> S Undefined_behaviour g'"
    and "\<And>g'. staged env (cs @ teardown env) xs g' \<Longrightarrow> (do_exit g \<noteq> 0 \<longrightarrow> do_exit g' \<noteq> 0) \<Longrightarrow> Q rc g'"
  shows "ensures (main_out env rc g) S Q"
proof (cases "e_open env")
  case None
  have eq: "main_out env rc g =
      bind (lib_call env P_exit Fn_main (Libusb_exit None) g) (\<lambda>_ g. Go rc g)"
    using None assms(2) by (simp add: main_out_def)
  show ?thesis
    unfolding eq
  proof (rule bind_lib_call [OF assms(1)])
    fix g' assume "staged env (cs @ [Libusb_exit None]) xs g'"
    then show "S Undefined_behaviour g'"
      using assms(3) [of "[Libusb_exit None]" g'] None by (simp add: teardown_def)
  next
    fix u :: unit and g'
    assume "staged env (cs @ [Libusb_exit None]) xs g'" "do_exit g \<noteq> 0 \<longrightarrow> do_exit g' \<noteq> 0"
    then show "ensures (Go rc g') S Q"
      using assms(4) [of g'] None by (simp add: teardown_def)
  qed (simp_all add: transfer_call_def)
next
  case (Some h)
  have eq: "main_out env rc g =
      bind (lib_call env P_close Fn_main (Libusb_close h) g)
        (\<lambda>_ g. bind (lib_call env P_exit Fn_main (Libusb_exit None) g) (\<lambda>_ g. Go rc g))"
    using Some assms(2) by (simp add: main_out_def)
  show ?thesis
    unfolding eq
  proof (rule bind_lib_call [OF assms(1)])
    fix g' assume "staged env (cs @ [Libusb_close h]) xs g'"
    then show "S Undefined_behaviour g'"
      using assms(3) [of "[Libusb_close h]" g'] Some by (simp add: teardown_def)
  next
    fix u :: unit and g1
    assume 1: "staged env (cs @ [Libusb_close h]) xs g1" "do_exit g \<noteq> 0 \<longrightarrow> do_exit g1 \<noteq> 0"
    show "ensures (bind (lib_call env P_exit Fn_main (Libusb_exit None) g1) (\<lambda>_ g. Go rc g)) S Q"
    proof (rule bind_lib_call [OF 1(1)])
      fix g' assume "staged env ((cs @ [Libusb_close h]) @ [Libusb_exit None]) xs g'"
      then show "S Undefined_behaviour g'"
        using assms(3) [of "[Libusb_close h, Libusb_exit None]" g'] Some by (simp add: teardown_def)
    next
      fix u :: unit and g'
      assume "staged env ((cs @ [Libusb_close h]) @ [Libusb_exit None]) xs g'"
        "do_exit g1 \<noteq> 0 \<longrightarrow> do_exit g' \<noteq> 0"
      then show "ensures (Go rc g') S Q"
        using assms(4) [of g'] Some 1(2) by (simp add: teardown_def)
    qed (simp_all add: transfer_call_def)
  qed (simp_all add: transfer_call_def)
qed

lemma benchmark_in_spec:
  assumes "staged env cs [] g" and "claim_call env \<in> set cs"
    and "\<And>cs' g'. prefix cs' (bench_calls env ep (devh g)) \<Longrightarrow> staged env (cs @ cs') [] g'
          \<Longrightarrow> S Undefined_behaviour g'"
    and "\<And>rc g'. staged env (cs @ bench_calls env ep (devh g)) [] g' \<Longrightarrow> devh g' = devh g
          \<Longrightarrow> (do_exit g \<noteq> 0 \<longrightarrow> do_exit g' \<noteq> 0) \<Longrightarrow> Q rc g'"
  shows "ensures (benchmark_in env ep g) S Q"
proof (cases "e_alloc env")
  case None
  have eq: "benchmark_in env ep g =
      bind (lib_call env P_alloc Fn_benchmark_in
             (Libusb_alloc_transfer (if ep = EP_ISO_IN then 16 else 0)) g) (\<lambda>_ g. Go (- 1) g)"
    using None by (simp add: benchmark_in_def)
  show ?thesis
    unfolding eq
  proof (rule bind_lib_call [OF assms(1)])
    fix g' assume "staged env (cs @ [Libusb_alloc_transfer (if ep = EP_ISO_IN then 16 else 0)]) [] g'"
    then show "S Undefined_behaviour g'"
      using assms(3) [of "[Libusb_alloc_transfer (if ep = EP_ISO_IN then 16 else 0)]" g'] None
      by (simp add: bench_calls_def)
  next
    fix u :: unit and g'
    assume "staged env (cs @ [Libusb_alloc_transfer (if ep = EP_ISO_IN then 16 else 0)]) [] g'"
      "devh g' = devh g" "do_exit g \<noteq> 0 \<longrightarrow> do_exit g' \<noteq> 0"
    then show "ensures (Go (- 1) g') S Q"
      using assms(4) [of g' "- 1"] None by (simp add: bench_calls_def)
  qed (simp_all add: assms(2))
next
  case (Some xfr)
  show ?thesis
  proof (cases "ep = EP_ISO_IN")
    case True
    have eq: "benchmark_in env ep g =
        bind (lib_call env P_alloc Fn_benchmark_in (Libusb_alloc_transfer 16) g)
        (\<lambda>_ g.
        bind (lib_call env P_fill Fn_benchmark_in
                (Libusb_fill_iso_transfer xfr (devh g) ep 2048 16 0) g)
        (\<lambda>_ g.
        bind (lib_call env P_set_lengths Fn_benchmark_in (Libusb_set_iso_packet_lengths xfr 128) g)
        (\<lambda>_ g.
        bind (lib_call env P_timestamp Fn_benchmark_in Get_timestamp (g\<lparr>tv_start := e_tv_start env\<rparr>))
        (\<lambda>_ g.
        bind (lib_call env P_submit Fn_benchmark_in (Libusb_submit_transfer xfr) g)
        (\<lambda>_ g. Go (e_submit_rc env) g)))))"
      using Some True by (simp add: benchmark_in_def run_bind_assoc)
    have bc: "bench_calls env ep (devh g) =
        [Libusb_alloc_transfer 16, Libusb_fill_iso_transfer xfr (devh g) ep 2048 16 0,
         Libusb_set_iso_packet_lengths xfr 128, Get_timestamp, Libusb_submit_transfer xfr]"
      using Some True by (simp add: bench_calls_def)
    note ub = assms(3) [unfolded bc]
    show ?thesis
      unfolding eq
      apply (rule bind_lib_call [OF assms(1)])
         apply (simp_all add: assms(2))
       apply (erule ub [rotated], simp)
      apply (erule bind_lib_call)
         apply (simp_all add: assms(2))
       apply (rule ub [of "[_, _]"], simp, simp)
      apply (erule bind_lib_call)
         apply (simp_all add: assms(2) transfer_call_def)
       apply (rule ub [of "[_, _, _]"], simp, simp)
      apply (rule bind_lib_call)
          apply (simp, simp, simp add: transfer_call_def)
       apply (rule ub [of "[_, _, _, _]"], simp, simp)
      apply (erule bind_lib_call)
         apply (simp_all add: assms(2))
       apply (rule ub [of "[_, _, _, _, _]"], simp, simp)
      apply (rule assms(4))
        apply (simp_all add: bc)
      done
  next
    case False
    have eq: "benchmark_in env ep g =
        bind (lib_call env P_alloc Fn_benchmark_in (Libusb_alloc_transfer 0) g)
        (\<lambda>_ g.
        bind (lib_call env P_fill Fn_benchmark_in
                (Libusb_fill_bulk_transfer xfr (devh g) ep 2048 0) g)
        (\<lambda>_ g.
        bind (lib_call env P_timestamp Fn_benchmark_in Get_timestamp (g\<lparr>tv_start := e_tv_start env\<rparr>))
        (\<lambda>_ g.
        bind (lib_call env P_submit Fn_benchmark_in (Libusb_submit_transfer xfr) g)
        (\<lambda>_ g. Go (e_submit_rc env) g))))"
      using Some False by (simp add: benchmark_in_def)
    have bc: "bench_calls env ep (devh g) =
        [Libusb_alloc_transfer 0, Libusb_fill_bulk_transfer xfr (devh g) ep 2048 0,
         Get_timestamp, Libusb_submit_transfer xfr]"
      using Some False by (simp add: bench_calls_def)
    note ub = assms(3) [unfolded bc]
    show ?thesis
      unfolding eq
      apply (rule bind_lib_call [OF assms(1)])
         apply (simp_all add: assms(2))
       apply (erule ub [rotated], simp)
      apply (erule bind_lib_call)
         apply (simp_all add: assms(2) transfer_call_def)
       apply (rule ub [of "[_, _]"], simp, simp)
      apply (rule bind_lib_call)
          apply (simp, simp, simp add: transfer_call_def)
       apply (rule ub [of "[_, _, _]"], simp, simp)
      apply (erule bind_lib_call)
         apply (simp_all add: assms(2))
       apply (rule ub [of "[_, _, _, _]"], simp, simp)
      apply (rule assms(4))
        apply (simp_all add: bc)
      done
  qed
qed

lemma staged_initial: "staged env [] [] initial_globals"
  by (simp add: staged_def world_def before_def own_def initial_globals_def)

lemma halted_ub:
  "staged env cs xs g \<Longrightarrow> prefix cs (script env k) \<Longrightarrow> halted env Undefined_behaviour g"
  by (auto simp: halted_def staged_def)

lemma bind_event_loop:
  assumes "staged env cs [] g" and "claim_call env \<in> set cs"
    and "\<And>h k g'. h \<noteq> Still_running \<Longrightarrow> 0 < k \<Longrightarrow> k \<le> length rs \<Longrightarrow> world env g'
          \<Longrightarrow> own (trace g') = cs @ replicate k handle_call \<Longrightarrow> S h g'"
    and "\<And>g'. staged env (cs @ replicate (length rs) handle_call) (rounds_completed rs) g'
          \<Longrightarrow> do_exit g' = 0 \<Longrightarrow> S Still_running g'"
    and "\<And>rc' k g'. k \<le> length rs
          \<Longrightarrow> staged env (cs @ replicate k handle_call) (rounds_completed (take k rs)) g'
          \<Longrightarrow> devh g' = devh g
          \<Longrightarrow> do_exit g' \<noteq> 0 \<or> 0 < k \<and> rc' = r_rc (rs ! (k - 1)) \<and> rc' \<noteq> LIBUSB_SUCCESS
          \<Longrightarrow> (k = 0 \<longrightarrow> rc' = rc) \<Longrightarrow> ensures (kont rc' g') S Q"
  shows "ensures (bind (event_loop rs rc g) kont) S Q"
proof -
  have w: "world env g" "has (claim_call env) g" "own (trace g) = cs" "tally initial_globals [] g"
    using assms(1,2) own_has [of "claim_call env" g] by (simp_all add: staged_def)
  have st: "staged env (cs @ replicate k handle_call) xs g'"
    if "looped env rs g k g'" "tally g xs g'" for k xs g'
    using that w(3) tally_trans [OF w(4) that(2)] by (simp add: staged_def looped_def)
  show ?thesis
  proof (rule ensures_bind [OF ensures_mono [OF event_loop_spec [OF w(1,2)]]])
    fix hl g'
    assume "\<exists>k. looped env rs g k g'
         \<and> (if hl = Still_running
            then k = length rs \<and> tally g (rounds_completed rs) g' \<and> do_exit g' = 0
            else 0 < k)"
    then obtain k where k: "looped env rs g k g'"
      "if hl = Still_running
            then k = length rs \<and> tally g (rounds_completed rs) g' \<and> do_exit g' = 0
            else 0 < k" by blast
    show "S hl g'"
    proof (cases "hl = Still_running")
      case True
      with k st [of k g' "rounds_completed rs"] show ?thesis
        using assms(4) [of g'] by simp
    next
      case False
      with k w(3) show ?thesis
        using assms(3) [of hl k g'] by (simp add: looped_def)
    qed
  next
    fix rc' g'
    assume "\<exists>k. looped env rs g k g' \<and> tally g (rounds_completed (take k rs)) g'
         \<and> (do_exit g' \<noteq> 0 \<or> 0 < k \<and> rc' = r_rc (rs ! (k - 1)) \<and> rc' \<noteq> LIBUSB_SUCCESS)
         \<and> (k = 0 \<longrightarrow> rc' = rc)"
    then show "\<exists>k. looped env rs g k g' \<and> tally g (rounds_completed (take k rs)) g'
         \<and> (do_exit g' \<noteq> 0 \<or> 0 < k \<and> rc' = r_rc (rs ! (k - 1)) \<and> rc' \<noteq> LIBUSB_SUCCESS)
         \<and> (k = 0 \<longrightarrow> rc' = rc)" .
  next
    fix rc' g'
    assume "\<exists>k. looped env rs g k g' \<and> tally g (rounds_completed (take k rs)) g'
         \<and> (do_exit g' \<noteq> 0 \<or> 0 < k \<and> rc' = r_rc (rs ! (k - 1)) \<and> rc' \<noteq> LIBUSB_SUCCESS)
         \<and> (k = 0 \<longrightarrow> rc' = rc)"
    then obtain k where k: "looped env rs g k g'" "tally g (rounds_completed (take k rs)) g'"
      "do_exit g' \<noteq> 0 \<or> 0 < k \<and> rc' = r_rc (rs ! (k - 1)) \<and> rc' \<noteq> LIBUSB_SUCCESS"
      "k = 0 \<longrightarrow> rc' = rc" by blast
    show "ensures (kont rc' g') S Q"
    proof (rule assms(5) [of k])
      show "k \<le> length rs" "devh g' = devh g" using k(1) by (simp_all add: looped_def)
      show "staged env (cs @ replicate k handle_call) (rounds_completed (take k rs)) g'"
        using st [OF k(1,2)] .
    qed (use k in auto)
  qed
qed

subsection \<open>The four courses of main\<close>

lemma main_init_failed:
  assumes "sint (e_init_rc env) < 0"
  shows "ensures (main env) (halted env) (returned env)"
proof -
  have eq: "main env =
      bind (lib_call env P_sigaction Fn_main Sigaction_SIGINT initial_globals)
      (\<lambda>_ g.
      bind (lib_call env P_init Fn_main (Libusb_init_context None) g)
      (\<lambda>_ g.
        Stop (Exited 1)
         (log Fn_main (Exit_call 1)
           (log Fn_main (Fprintf_stderr ''Error initializing libusb: %s\<newline>''
                           [Arg_error_name (e_init_rc env)])
             (log Fn_main (Libusb_error_name (e_init_rc env)) g)))))"
    using assms by (simp add: main_def Let_def)
  have sc: "script env k =
        [Sigaction_SIGINT, Libusb_init_context None, Libusb_error_name (e_init_rc env),
         Fprintf_stderr ''Error initializing libusb: %s\<newline>'' [Arg_error_name (e_init_rc env)],
         Exit_call 1]" for k
    using assms by (simp add: script_def)
  show ?thesis
    unfolding eq
    apply (rule bind_lib_call [OF staged_initial])
       apply (simp_all add: transfer_call_def)
     apply (erule halted_ub [where k = 0], simp add: sc)
    apply (erule bind_lib_call)
       apply (simp_all add: transfer_call_def)
     apply (erule halted_ub [where k = 0], simp add: sc)
    apply (simp add: halted_def assms sc)
    apply (drule staged_log [where f = Fn_main and c = "Libusb_error_name (e_init_rc env)"])
      apply (simp, simp add: transfer_call_def)
    apply (drule staged_log [where f = Fn_main and c = "Fprintf_stderr ''Error initializing libusb: %s\<newline>''
                           [Arg_error_name (e_init_rc env)]"])
      apply (simp, simp add: transfer_call_def)
    apply (drule staged_log [where f = Fn_main and c = "Exit_call 1"])
      apply (simp, simp add: transfer_call_def)
    apply (simp add: staged_def)
    done
qed

lemma main_open_failed:
  assumes "\<not> sint (e_init_rc env) < 0" and "e_open env = None"
  shows "ensures (main env) (halted env) (returned env)"
proof -
  let ?msg = "Fprintf_stderr ''Error finding USB device\<newline>'' []"
  let ?cs = "[Sigaction_SIGINT, Libusb_init_context None,
         Libusb_open_device_with_vid_pid None 0x16c0 0x0763, ?msg]"
  have eq: "main env =
      bind (lib_call env P_sigaction Fn_main Sigaction_SIGINT initial_globals)
      (\<lambda>_ g.
      bind (lib_call env P_init Fn_main (Libusb_init_context None) g)
      (\<lambda>_ g.
      bind (lib_call env P_open Fn_main (Libusb_open_device_with_vid_pid None 0x16c0 0x0763) g)
      (\<lambda>_ g. main_out env (e_init_rc env) (log Fn_main ?msg (g\<lparr>devh := None\<rparr>)))))"
    using assms by (simp add: main_def Let_def)
  have sc: "script env k = ?cs @ teardown env" for k
    using assms by (simp add: script_def)
  have out: "ensures (main_out env (e_init_rc env) (log Fn_main ?msg (g\<lparr>devh := None\<rparr>)))
       (halted env) (returned env)"
    if "staged env
         [Sigaction_SIGINT, Libusb_init_context None,
          Libusb_open_device_with_vid_pid None 0x16c0 0x0763] [] g" for g
  proof (rule main_out_spec [where cs = ?cs and xs = "[]"])
    show "staged env ?cs [] (log Fn_main ?msg (g\<lparr>devh := None\<rparr>))"
    proof -
      have "staged env [Sigaction_SIGINT, Libusb_init_context None,
          Libusb_open_device_with_vid_pid None 0x16c0 0x0763] [] (g\<lparr>devh := None\<rparr>)"
        using that by simp
      then have "staged env ([Sigaction_SIGINT, Libusb_init_context None,
          Libusb_open_device_with_vid_pid None 0x16c0 0x0763] @ [?msg]) []
          (log Fn_main ?msg (g\<lparr>devh := None\<rparr>))"
        by (rule staged_log) (simp_all add: transfer_call_def)
      then show ?thesis by simp
    qed
    show "devh (log Fn_main ?msg (g\<lparr>devh := None\<rparr>)) = e_open env"
      using assms(2) by simp
  next
    fix cs' g' assume "prefix cs' (teardown env)" "staged env (?cs @ cs') [] g'"
    then show "halted env Undefined_behaviour g'"
      by (intro halted_ub [where k = 0 and cs = "?cs @ cs'"]) (simp_all add: sc)
  next
    fix g' assume "staged env (?cs @ teardown env) [] g'"
    then show "returned env (e_init_rc env) g'"
      using assms unfolding returned_def
      by (intro exI [of _ 0]) (simp add: sc rounds_completed_def)
  qed
  show ?thesis
    unfolding eq
    apply (rule bind_lib_call [OF staged_initial])
       apply (simp_all add: transfer_call_def)
     apply (erule halted_ub [where k = 0], simp add: sc)
    apply (erule bind_lib_call)
       apply (simp_all add: transfer_call_def)
     apply (erule halted_ub [where k = 0], simp add: sc)
    apply (erule bind_lib_call)
       apply (simp_all add: transfer_call_def)
     apply (erule halted_ub [where k = 0], simp add: sc)
    apply (erule out)
    done
qed

lemma main_claim_failed:
  assumes "\<not> sint (e_init_rc env) < 0" and "e_open env \<noteq> None" and "sint (e_claim_rc env) < 0"
  shows "ensures (main env) (halted env) (returned env)"
proof -
  let ?name = "Libusb_error_name (e_claim_rc env)"
  let ?msg = "Fprintf_stderr ''Error claiming interface: %s\<newline>'' [Arg_error_name (e_claim_rc env)]"
  let ?pre = "[Sigaction_SIGINT, Libusb_init_context None,
         Libusb_open_device_with_vid_pid None 0x16c0 0x0763, claim_call env]"
  let ?cs = "?pre @ [?name, ?msg]"
  have eq: "main env =
      bind (lib_call env P_sigaction Fn_main Sigaction_SIGINT initial_globals)
      (\<lambda>_ g.
      bind (lib_call env P_init Fn_main (Libusb_init_context None) g)
      (\<lambda>_ g.
      bind (lib_call env P_open Fn_main (Libusb_open_device_with_vid_pid None 0x16c0 0x0763) g)
      (\<lambda>_ g.
      bind (lib_call env P_claim Fn_main (claim_call env) (g\<lparr>devh := e_open env\<rparr>))
      (\<lambda>_ g. main_out env (e_claim_rc env) (log Fn_main ?msg (log Fn_main ?name g))))))"
  proof -
    from assms(2) obtain h where "e_open env = Some h" by blast
    with assms(1,3) show ?thesis
      by (simp add: main_def Let_def claim_call_def)
  qed
  have sc: "script env k = ?cs @ teardown env" for k
    using assms by (simp add: script_def)
  have out: "ensures (main_out env (e_claim_rc env) (log Fn_main ?msg (log Fn_main ?name g)))
       (halted env) (returned env)"
    if "staged env ?pre [] g" "devh g = e_open env" for g
  proof (rule main_out_spec [where cs = ?cs and xs = "[]"])
    have "staged env (?pre @ [?name]) [] (log Fn_main ?name g)"
      using that(1) by (rule staged_log) (simp_all add: transfer_call_def)
    then have "staged env ((?pre @ [?name]) @ [?msg]) [] (log Fn_main ?msg (log Fn_main ?name g))"
      by (rule staged_log) (simp_all add: transfer_call_def)
    then show "staged env ?cs [] (log Fn_main ?msg (log Fn_main ?name g))"
      by simp
    show "devh (log Fn_main ?msg (log Fn_main ?name g)) = e_open env"
      using that(2) by simp
  next
    fix cs' g' assume "prefix cs' (teardown env)" "staged env (?cs @ cs') [] g'"
    then show "halted env Undefined_behaviour g'"
      by (intro halted_ub [where k = 0 and cs = "?cs @ cs'"]) (simp_all add: sc)
  next
    fix g' assume "staged env (?cs @ teardown env) [] g'"
    then show "returned env (e_claim_rc env) g'"
      using assms unfolding returned_def
      by (intro exI [of _ 0]) (auto simp: sc rounds_completed_def)
  qed
  show ?thesis
    unfolding eq
    apply (rule bind_lib_call [OF staged_initial])
       apply (simp_all add: transfer_call_def)
     apply (erule halted_ub [where k = 0], simp add: sc)
    apply (erule bind_lib_call)
       apply (simp_all add: transfer_call_def)
     apply (erule halted_ub [where k = 0], simp add: sc)
    apply (erule bind_lib_call)
       apply (simp_all add: transfer_call_def)
     apply (erule halted_ub [where k = 0], simp add: sc)
    apply (rule bind_lib_call)
        apply (simp, simp, simp add: transfer_call_def claim_call_def)
     apply (erule halted_ub [where k = 0], simp add: sc)
    apply (rule out)
     apply simp_all
    done
qed

lemma script_running:
  "loop_reached env \<Longrightarrow>
   script env k = running env k @ Libusb_release_interface (e_open env) 2 # teardown env"
  by (simp add: script_def loop_reached_def)

lemma main_after_loop:
  assumes "loop_reached env" and "k \<le> length (e_rounds env)"
    and "staged env (running env k) (rounds_completed (take k (e_rounds env))) g"
    and "devh g = e_open env"
    and "do_exit g \<noteq> 0 \<or> 0 < k \<and> rc = r_rc (e_rounds env ! (k - 1)) \<and> rc \<noteq> LIBUSB_SUCCESS"
    and "k = 0 \<longrightarrow> rc = e_claim_rc env"
  shows "ensures
     (bind (lib_call env P_release Fn_main (Libusb_release_interface (devh g) 2) g)
        (\<lambda>_ g. main_out env rc g)) (halted env) (returned env)"
proof (rule bind_lib_call [OF assms(3)])
  let ?rel = "Libusb_release_interface (devh g) 2"
  note sc = script_running [OF assms(1), of k]
  fix g' assume "staged env (running env k @ [?rel]) (rounds_completed (take k (e_rounds env))) g'"
  then show "halted env Undefined_behaviour g'"
    by (rule halted_ub [where k = k]) (simp add: sc assms(4))
next
  let ?rel = "Libusb_release_interface (devh g) 2"
  note sc = script_running [OF assms(1), of k]
  fix u :: unit and g1
  assume 1: "staged env (running env k @ [?rel]) (rounds_completed (take k (e_rounds env))) g1"
    "devh g1 = devh g" "do_exit g \<noteq> 0 \<longrightarrow> do_exit g1 \<noteq> 0"
  show "ensures (main_out env rc g1) (halted env) (returned env)"
  proof (rule main_out_spec [OF 1(1)])
    show "devh g1 = e_open env" using 1(2) assms(4) by simp
  next
    fix cs' g' assume "prefix cs' (teardown env)"
      "staged env ((running env k @ [?rel]) @ cs') (rounds_completed (take k (e_rounds env))) g'"
    then show "halted env Undefined_behaviour g'"
      by (intro halted_ub [where k = k and cs = "(running env k @ [?rel]) @ cs'"])
         (simp_all add: sc assms(4))
  next
    fix g'
    assume 2: "staged env ((running env k @ [?rel]) @ teardown env)
        (rounds_completed (take k (e_rounds env))) g'"
      "do_exit g1 \<noteq> 0 \<longrightarrow> do_exit g' \<noteq> 0"
    have "staged env (script env k) (rounds_completed (take k (e_rounds env))) g'"
      using 2(1) by (simp add: sc assms(4))
    moreover have "do_exit g' \<noteq> 0
        \<or> 0 < k \<and> rc = r_rc (e_rounds env ! (k - 1)) \<and> rc \<noteq> LIBUSB_SUCCESS"
      using assms(5) 1(3) 2(2) by blast
    ultimately show "returned env rc g'"
      using assms(1,2,6) unfolding returned_def loop_reached_def
      by (intro exI [of _ k]) auto
  qed
qed (simp_all add: transfer_call_def)

lemma main_loop_reached:
  assumes "loop_reached env"
  shows "ensures (main env) (halted env) (returned env)"
proof -
  let ?pre = "[Sigaction_SIGINT, Libusb_init_context None,
         Libusb_open_device_with_vid_pid None 0x16c0 0x0763, claim_call env]"
  let ?bench = "bench_calls env EP_ISO_IN (e_open env)"
  have eq: "main env =
      bind (lib_call env P_sigaction Fn_main Sigaction_SIGINT initial_globals)
      (\<lambda>_ g.
      bind (lib_call env P_init Fn_main (Libusb_init_context None) g)
      (\<lambda>_ g.
      bind (lib_call env P_open Fn_main (Libusb_open_device_with_vid_pid None 0x16c0 0x0763) g)
      (\<lambda>_ g.
      bind (lib_call env P_claim Fn_main (claim_call env) (g\<lparr>devh := e_open env\<rparr>))
      (\<lambda>_ g.
      bind (benchmark_in env EP_ISO_IN g)
      (\<lambda>_ g.
      bind (event_loop (e_rounds env) (e_claim_rc env) g)
      (\<lambda>rc g.
      bind (lib_call env P_release Fn_main (Libusb_release_interface (devh g) 2) g)
      (\<lambda>_ g. main_out env rc g)))))))"
  proof -
    from assms obtain h where "e_open env = Some h" by (auto simp: loop_reached_def)
    with assms show ?thesis
      by (simp add: main_def Let_def claim_call_def loop_reached_def)
  qed
  have sc: "script env k = ?pre @ ?bench @ replicate k handle_call
      @ Libusb_release_interface (e_open env) 2 # teardown env" for k
    using assms by (simp add: script_running running_def)
  have ni: "\<not> sint (e_init_rc env) < 0"
    using assms by (simp add: loop_reached_def)
  have loop: "ensures
      (bind (event_loop (e_rounds env) (e_claim_rc env) g)
         (\<lambda>rc g. bind (lib_call env P_release Fn_main (Libusb_release_interface (devh g) 2) g)
                   (\<lambda>_ g. main_out env rc g))) (halted env) (returned env)"
    if st: "staged env (?pre @ ?bench) [] g" and dh: "devh g = e_open env" for g
  proof (rule bind_event_loop [OF st])
    show "claim_call env \<in> set (?pre @ ?bench)" by simp
  next
    fix h k g'
    assume "h \<noteq> Still_running" "0 < k" "k \<le> length (e_rounds env)" "world env g'"
      "own (trace g') = (?pre @ ?bench) @ replicate k handle_call"
    then have *: "h \<noteq> Still_running" "0 < k" "k \<le> length (e_rounds env)" "world env g'"
      "own (trace g') = running env k" "prefix (own (trace g')) (script env k)"
      by (simp_all add: running_def sc)
    show "halted env h g'"
    proof (cases h)
      case (Exited c)
      with * assms ni show ?thesis by (auto simp: halted_def)
    next
      case Undefined_behaviour
      with * show ?thesis by (auto simp: halted_def)
    next
      case Still_running
      with * show ?thesis by simp
    qed
  next
    fix g'
    assume "staged env ((?pre @ ?bench) @ replicate (length (e_rounds env)) handle_call)
        (rounds_completed (e_rounds env)) g'" "do_exit g' = 0"
    then show "halted env Still_running g'"
      using assms by (simp add: halted_def running_def staged_def)
  next
    fix rc' k g'
    assume "k \<le> length (e_rounds env)"
      "staged env ((?pre @ ?bench) @ replicate k handle_call)
         (rounds_completed (take k (e_rounds env))) g'"
      "devh g' = devh g"
      "do_exit g' \<noteq> 0 \<or> 0 < k \<and> rc' = r_rc (e_rounds env ! (k - 1)) \<and> rc' \<noteq> LIBUSB_SUCCESS"
      "k = 0 \<longrightarrow> rc' = e_claim_rc env"
    then show "ensures
        (bind (lib_call env P_release Fn_main (Libusb_release_interface (devh g') 2) g')
          (\<lambda>_ g. main_out env rc' g)) (halted env) (returned env)"
      using dh by (intro main_after_loop [OF assms]) (auto simp: running_def)
  qed
  have bench: "ensures
      (bind (benchmark_in env EP_ISO_IN g)
        (\<lambda>_ g. bind (event_loop (e_rounds env) (e_claim_rc env) g)
         (\<lambda>rc g. bind (lib_call env P_release Fn_main (Libusb_release_interface (devh g) 2) g)
                   (\<lambda>_ g. main_out env rc g)))) (halted env) (returned env)"
    if st: "staged env ?pre [] g" and dh: "devh g = e_open env" for g
  proof (rule ensures_bind)
    show "ensures (benchmark_in env EP_ISO_IN g) (halted env)
        (\<lambda>_ g'. staged env (?pre @ ?bench) [] g' \<and> devh g' = e_open env)"
    proof (rule benchmark_in_spec [OF st])
      fix cs' g'
      assume "prefix cs' (bench_calls env EP_ISO_IN (devh g))" "staged env (?pre @ cs') [] g'"
      then show "halted env Undefined_behaviour g'"
        by (intro halted_ub [where k = 0 and cs = "?pre @ cs'"]) (simp_all add: sc dh)
    qed (simp_all add: dh)
  next
    fix a :: cint and g'
    assume "staged env (?pre @ ?bench) [] g' \<and> devh g' = e_open env"
    then show "ensures
      (bind (event_loop (e_rounds env) (e_claim_rc env) g')
         (\<lambda>rc g. bind (lib_call env P_release Fn_main (Libusb_release_interface (devh g) 2) g)
                   (\<lambda>_ g. main_out env rc g))) (halted env) (returned env)"
      by (intro loop) simp_all
  qed
  show ?thesis
    unfolding eq
    apply (rule bind_lib_call [OF staged_initial])
       apply (simp_all add: transfer_call_def)
     apply (erule halted_ub [where k = 0], simp add: sc)
    apply (erule bind_lib_call)
       apply (simp_all add: transfer_call_def)
     apply (erule halted_ub [where k = 0], simp add: sc)
    apply (erule bind_lib_call)
       apply (simp_all add: transfer_call_def)
     apply (erule halted_ub [where k = 0], simp add: sc)
    apply (rule bind_lib_call)
        apply (simp, simp, simp add: transfer_call_def claim_call_def)
     apply (erule halted_ub [where k = 0], simp add: sc)
    apply (rule bench)
     apply simp_all
    done
qed

lemma main_spec: "ensures (main env) (halted env) (returned env)"
proof (cases "sint (e_init_rc env) < 0")
  case True
  then show ?thesis by (rule main_init_failed)
next
  case ni: False
  show ?thesis
  proof (cases "e_open env = None")
    case True
    with ni show ?thesis by (rule main_open_failed)
  next
    case op: False
    show ?thesis
    proof (cases "sint (e_claim_rc env) < 0")
      case True
      with ni op show ?thesis by (rule main_claim_failed)
    next
      case False
      with ni op have "loop_reached env" by (simp add: loop_reached_def)
      then show ?thesis by (rule main_loop_reached)
    qed
  qed
qed

subsection \<open>Facts used by the statements\<close>

lemma packets_index:
  assumes "nat (sint (xfr_num_iso_packets xfr)) \<le> length (xfr_iso_packet_desc xfr)"
  shows "(\<forall>i < nat (sint (xfr_num_iso_packets xfr)). pack_ok xfr i)
     \<longleftrightarrow> (\<forall>pk\<in>set (packets xfr). pkt_status pk = LIBUSB_TRANSFER_COMPLETED)"
proof -
  let ?n = "nat (sint (xfr_num_iso_packets xfr))"
  have len: "length (packets xfr) = ?n"
    using assms by (simp add: packets_def)
  have nth: "packets xfr ! i = xfr_iso_packet_desc xfr ! i" if "i < ?n" for i
    using that by (simp add: packets_def)
  show ?thesis
    unfolding pack_ok_def
    by (metis len nth in_set_conv_nth)
qed

lemma added_logs: "added g (Go a (logs evs g)) = evs" "added g (Stop h (logs evs g)) = evs"
  by (simp_all add: added_def logs_def)

lemma logs_counted: "logs evs (counted xfr g) = counted xfr (logs evs g)"
  by (simp add: logs_def counted_def)

lemma xfr_ok_facts:
  "xfr_status xfr_ok = LIBUSB_TRANSFER_COMPLETED"
  "xfr_type xfr_ok = LIBUSB_TRANSFER_TYPE_ISOCHRONOUS \<longrightarrow>
     (\<forall>pk\<in>set (packets xfr_ok). pkt_status pk = LIBUSB_TRANSFER_COMPLETED)"
  "in_bounds xfr_ok"
  by (simp_all add: xfr_ok_def LIBUSB_TRANSFER_COMPLETED_def LIBUSB_TRANSFER_TYPE_ISOCHRONOUS_def
      packets_def in_bounds_def)

lemmas run_defs =
  main_def main_out_def benchmark_in_def lib_call_def libusb_handle_events_def cb_xfr_def
  sig_hdlr_def measure_fn_def measure_diff_msec_def log_def Let_def initial_globals_def
  NSEC_PER_SEC_def EP_ISO_IN_def LIBUSB_SUCCESS_def LIBUSB_TRANSFER_COMPLETED_def
  LIBUSB_TRANSFER_TYPE_ISOCHRONOUS_def no_sigint_def upt_conv_Cons

lemma env_ok_defined: "defined_run (main env_ok)"
  by (simp add: run_defs env_ok_def xfr_ok_def)

lemma main_cases:
  obtains (returns) rc g where "main env = Go rc g" "returned env rc g"
  | (halts) h g where "main env = Stop h g" "halted env h g"
  using main_spec [of env] by (cases "main env") simp_all

lemma filter_calls_own:
  assumes "\<forall>e\<in>set tr. fst e = Fn_measure \<or> fst e = Fn_cb_xfr \<longrightarrow> \<not> P (snd e)"
  shows "filter P (calls tr) = filter P (own tr)"
  using assms
proof (induction tr)
  case Nil
  show ?case by (simp add: calls_def own_def)
next
  case (Cons e tr)
  then have "filter P (calls tr) = filter P (own tr)" by simp
  moreover have "fst e = Fn_main \<or> fst e = Fn_benchmark_in \<or> \<not> P (snd e)"
    using Cons.prems by (cases "fst e") simp_all
  ultimately show ?case
    by (auto simp: calls_def own_def)
qed

lemma world_filter_calls:
  assumes "world env g" and "\<And>e. measure_event e \<or> cb_event e \<Longrightarrow> \<not> P (snd e)"
  shows "filter P (calls (trace g)) = filter P (own (trace g))"
proof (rule filter_calls_own)
  show "\<forall>e\<in>set (trace g). fst e = Fn_measure \<or> fst e = Fn_cb_xfr \<longrightarrow> \<not> P (snd e)"
    using assms by (auto simp: world_def)
qed

lemma foreign_not_open: "measure_event e \<or> cb_event e \<Longrightarrow> \<not> is_open (snd e)"
  by (cases e) (auto simp: is_open_def split: call.splits)

lemma foreign_not_claim: "measure_event e \<or> cb_event e \<Longrightarrow> \<not> is_claim (snd e)"
  by (cases e) (auto simp: is_claim_def split: call.splits)

lemma filter_open_claim_script:
  "filter (\<lambda>c. is_open c \<or> is_claim c) (script env k) =
     (if sint (e_init_rc env) < 0 then []
      else Libusb_open_device_with_vid_pid None 0x16c0 0x0763
           # (if e_open env = None then [] else [Libusb_claim_interface (e_open env) 2]))"
  "loop_reached env \<Longrightarrow>
   filter (\<lambda>c. is_open c \<or> is_claim c) (running env k) =
     [Libusb_open_device_with_vid_pid None 0x16c0 0x0763, Libusb_claim_interface (e_open env) 2]"
  by (auto simp: script_def running_def bench_calls_def teardown_def claim_call_def
      handle_call_def is_open_def is_claim_def loop_reached_def split: option.splits)

lemma foreign_not_open_claim:
  "measure_event e \<or> cb_event e \<Longrightarrow> \<not> (is_open (snd e) \<or> is_claim (snd e))"
  using foreign_not_open [of e] foreign_not_claim [of e] by blast

lemma env_ok_facts:
  "defined_run (main env_ok)" "\<not> sint (e_init_rc env_ok) < 0" "loop_reached env_ok"
  using env_ok_defined by (simp_all add: env_ok_def loop_reached_def)

lemma env_no_device_facts:
  "defined_run (main env_no_device)" "\<not> sint (e_init_rc env_no_device) < 0"
  "e_open env_no_device = None"
  by (simp_all add: run_defs env_no_device_def env_ok_def)




lemma xfr_bad_packet_facts:
  "xfr_status xfr_bad_packet = LIBUSB_TRANSFER_COMPLETED"
  "xfr_type xfr_bad_packet = LIBUSB_TRANSFER_TYPE_ISOCHRONOUS"
  "in_bounds xfr_bad_packet"
  by (simp_all add: xfr_bad_packet_def LIBUSB_TRANSFER_COMPLETED_def
      LIBUSB_TRANSFER_TYPE_ISOCHRONOUS_def in_bounds_def)

lemma env_error_facts:
  "defined_run (main env_init_error)" "sint (e_init_rc env_init_error) < 0"
  "defined_run (main env_claim_error)" "\<not> sint (e_init_rc env_claim_error) < 0"
  "e_open env_claim_error = Some 7" "sint (e_claim_rc env_claim_error) < 0"
  by (simp_all add: run_defs env_init_error_def env_claim_error_def env_ok_def)

lemma main_env_handle_error:
  "\<exists>g. main env_handle_error = Go (- 4) g \<and> do_exit g = 0"
  by (simp add: run_defs env_handle_error_def env_ok_def xfr_ok_def)

lemma main_env_ok: "\<exists>g. main env_ok = Go 0 g \<and> do_exit g = 1"
  by (simp add: run_defs env_ok_def xfr_ok_def)

lemma main_env_running: "\<exists>g. main env_running = Stop Still_running g"
  by (simp add: run_defs env_running_def env_ok_def xfr_ok_def)

subsection \<open>The counters at the exit of the process\<close>

lemma quiet_Go [simp]:
  "quiet g (Go a g') = (num_bytes g' = num_bytes g \<and> num_xfer g' = num_xfer g)"
  by (simp add: quiet_def)

lemma quiet_bind:
  assumes "quiet g r"
    and "\<And>a g1. num_bytes g1 = num_bytes g \<Longrightarrow> num_xfer g1 = num_xfer g \<Longrightarrow> quiet g1 (f a g1)"
  shows "quiet g (bind r f)"
proof (cases r)
  case (Stop h g')
  with assms(1) show ?thesis by (simp add: quiet_def)
next
  case (Go a g1)
  with assms(1) have c: "num_bytes g1 = num_bytes g" "num_xfer g1 = num_xfer g" by simp_all
  from assms(2) [OF c, of a] show ?thesis
    unfolding Go by (cases "f a g1") (simp_all add: quiet_def c)
qed

lemma quiet_final:
  "quiet g r \<Longrightarrow> num_bytes (final r) = num_bytes g \<and> num_xfer (final r) = num_xfer g"
  by (cases r) (simp_all add: quiet_def)

lemma quiet_ensures_bind:
  assumes "quiet g r" and "\<And>g'. S Undefined_behaviour g'"
    and "\<And>a g1. num_bytes g1 = num_bytes g \<Longrightarrow> num_xfer g1 = num_xfer g \<Longrightarrow> ensures (f a g1) S Q"
  shows "ensures (bind r f) S Q"
proof (cases r)
  case (Stop h g')
  with assms(1,2) show ?thesis by (simp add: quiet_def)
next
  case (Go a g1)
  with assms(1) have c: "num_bytes g1 = num_bytes g" "num_xfer g1 = num_xfer g" by simp_all
  from assms(3) [OF c, of a] show ?thesis
    unfolding Go by simp
qed

lemma quiet_lib_call: "quiet g (lib_call env pt f c g)"
  unfolding quiet_def
  by (rule ensures_mono [OF lib_call_frame]) (auto simp: sig_frame_def)

lemma quiet_lib_call_upd:
  "num_bytes g1 = num_bytes g \<Longrightarrow> num_xfer g1 = num_xfer g \<Longrightarrow> quiet g (lib_call env pt f c g1)"
  using quiet_lib_call [of g1 env pt f c] by (simp add: quiet_def)

lemma quiet_benchmark_in: "quiet g (benchmark_in env ep g)"
  unfolding benchmark_in_def Let_def
  by (auto intro!: quiet_bind quiet_lib_call_upd split: option.splits)

lemma quiet_main_out: "quiet g (main_out env rc g)"
  unfolding main_out_def
  by (auto intro!: quiet_bind quiet_lib_call_upd split: option.splits)

lemma iso_packets_loop_outcome:
  "ensures (iso_packets_loop is xfr g)
     (\<lambda>h g'. num_bytes g' = num_bytes g \<and> num_xfer g' = num_xfer g
        \<and> (h = Undefined_behaviour
           \<or> h = Exited 5 \<and> (\<exists>i\<in>set is. i < length (xfr_iso_packet_desc xfr) \<and> \<not> pack_ok xfr i)))
     (\<lambda>_ g'. num_bytes g' = num_bytes g \<and> num_xfer g' = num_xfer g
        \<and> (\<forall>i\<in>set is. i < length (xfr_iso_packet_desc xfr) \<and> pack_ok xfr i))"
proof (induction "is" arbitrary: g)
  case Nil
  show ?case by simp
next
  case (Cons i "is")
  show ?case
  proof (cases "length (xfr_iso_packet_desc xfr) \<le> i")
    case True
    then show ?thesis by simp
  next
    case inb: False
    show ?thesis
    proof (cases "pack_ok xfr i")
      case False
      with inb show ?thesis by (simp add: pack_ok_def Let_def)
    next
      case True
      let ?g1 = "log Fn_cb_xfr
              (Printf ''pack%d length:%u, actual_length:%u\<newline>''
                 [Arg_d (int i), Arg_u (unat (pkt_length (xfr_iso_packet_desc xfr ! i))),
                  Arg_u (unat (pkt_actual_length (xfr_iso_packet_desc xfr ! i)))]) g"
      have eq: "iso_packets_loop (i # is) xfr g = iso_packets_loop is xfr ?g1"
        using inb True by (simp add: pack_ok_def Let_def)
      show ?thesis
        unfolding eq
        by (rule ensures_mono [OF Cons.IH [of ?g1]]) (use inb True in auto)
    qed
  qed
qed

lemma dump_loop_outcome:
  "ensures (dump_loop is xfr g)
     (\<lambda>h g'. h = Undefined_behaviour \<and> num_bytes g' = num_bytes g \<and> num_xfer g' = num_xfer g)
     (\<lambda>_ g'. num_bytes g' = num_bytes g \<and> num_xfer g' = num_xfer g)"
proof (induction "is" arbitrary: g)
  case Nil
  show ?case by simp
next
  case (Cons i "is")
  have step: "ensures (dump_loop is xfr (log f2 c2 (log f1 c1 g)))
     (\<lambda>h g'. h = Undefined_behaviour \<and> num_bytes g' = num_bytes g \<and> num_xfer g' = num_xfer g)
     (\<lambda>_ g'. num_bytes g' = num_bytes g \<and> num_xfer g' = num_xfer g)" for f1 c1 f2 c2
    by (rule ensures_mono [OF Cons.IH]) simp_all
  show ?case
    by (simp add: Let_def step)
qed

lemma passes_iso:
  assumes "xfr_status xfr = LIBUSB_TRANSFER_COMPLETED"
    and "xfr_type xfr = LIBUSB_TRANSFER_TYPE_ISOCHRONOUS"
  shows "\<forall>i\<in>set [0 ..< nat (sint (xfr_num_iso_packets xfr))].
           i < length (xfr_iso_packet_desc xfr) \<and> pack_ok xfr i \<Longrightarrow> passes xfr"
    and "\<exists>i\<in>set [0 ..< nat (sint (xfr_num_iso_packets xfr))].
           i < length (xfr_iso_packet_desc xfr) \<and> \<not> pack_ok xfr i \<Longrightarrow> \<not> passes xfr"
proof -
  let ?n = "nat (sint (xfr_num_iso_packets xfr))"
  {
    assume a: "\<forall>i\<in>set [0 ..< ?n]. i < length (xfr_iso_packet_desc xfr) \<and> pack_ok xfr i"
    have "pkt_status pk = LIBUSB_TRANSFER_COMPLETED" if "pk \<in> set (packets xfr)" for pk
    proof -
      from that obtain i where i: "i < length (packets xfr)" "packets xfr ! i = pk"
        by (auto simp: in_set_conv_nth)
      then have "i < ?n" "pk = xfr_iso_packet_desc xfr ! i"
        by (auto simp: packets_def)
      with a show ?thesis by (simp add: pack_ok_def)
    qed
    with assms show "passes xfr" by (simp add: passes_def)
  }
  {
    assume "\<exists>i\<in>set [0 ..< ?n]. i < length (xfr_iso_packet_desc xfr) \<and> \<not> pack_ok xfr i"
    then obtain i where i: "i < ?n" "i < length (xfr_iso_packet_desc xfr)" "\<not> pack_ok xfr i"
      by auto
    then have "i < length (packets xfr)" "packets xfr ! i = xfr_iso_packet_desc xfr ! i"
      by (simp_all add: packets_def)
    then have "xfr_iso_packet_desc xfr ! i \<in> set (packets xfr)"
      by (metis nth_mem)
    with i(3) assms show "\<not> passes xfr"
      by (auto simp: passes_def pack_ok_def)
  }
qed

lemma tally_one:
  "tally g [xfr] g' \<longleftrightarrow>
     num_bytes g' = num_bytes g + scast (xfr_actual_length xfr) \<and> num_xfer g' = num_xfer g + 1"
  by (simp add: tally_def total_bytes_def)

lemma tally_none: "tally g [] g' \<longleftrightarrow> num_bytes g' = num_bytes g \<and> num_xfer g' = num_xfer g"
  by (simp add: tally_def total_bytes_def)

lemma cb_xfr_outcome:
  "ensures (cb_xfr p xfr rc g)
     (\<lambda>h g'. h = Undefined_behaviour
        \<or> (if passes xfr then h = Exited 1 \<and> sint rc < 0 \<and> tally g [xfr] g'
            else (h = Exited 3 \<or> h = Exited 5) \<and> tally g [] g'))
     (\<lambda>_ g'. passes xfr \<and> \<not> sint rc < 0 \<and> tally g [xfr] g')"
proof (cases "xfr_status xfr = LIBUSB_TRANSFER_COMPLETED")
  case False
  then have "\<not> passes xfr" by (simp add: passes_def)
  with False show ?thesis
    by (simp add: cb_xfr_status logs_def tally_none)
next
  case True
  let ?S = "\<lambda>h g'. h = Undefined_behaviour
        \<or> (if passes xfr then h = Exited 1 \<and> sint rc < 0 \<and> tally g [xfr] g'
            else (h = Exited 3 \<or> h = Exited 5) \<and> tally g [] g')"
  let ?Q = "\<lambda>_ g'. passes xfr \<and> \<not> sint rc < 0 \<and> tally g [xfr] g'"
  let ?R = "\<lambda>g'. passes xfr \<and> num_bytes g' = num_bytes g \<and> num_xfer g' = num_xfer g"
  have first: "ensures (if xfr_type xfr = LIBUSB_TRANSFER_TYPE_ISOCHRONOUS
              then iso_packets_loop [0 ..< nat (sint (xfr_num_iso_packets xfr))] xfr g
              else Go () g) ?S (\<lambda>_. ?R)"
  proof (cases "xfr_type xfr = LIBUSB_TRANSFER_TYPE_ISOCHRONOUS")
    case iso: True
    have "ensures (iso_packets_loop [0 ..< nat (sint (xfr_num_iso_packets xfr))] xfr g) ?S (\<lambda>_. ?R)"
    proof (rule ensures_mono [OF iso_packets_loop_outcome])
      fix h and g' :: globals
      assume "num_bytes g' = num_bytes g \<and> num_xfer g' = num_xfer g
        \<and> (h = Undefined_behaviour
           \<or> h = Exited 5 \<and> (\<exists>i\<in>set [0 ..< nat (sint (xfr_num_iso_packets xfr))].
                i < length (xfr_iso_packet_desc xfr) \<and> \<not> pack_ok xfr i))"
      then show "?S h g'"
        using passes_iso(2) [OF True iso] by (auto simp: tally_none)
    next
      fix a :: unit and g' :: globals
      assume "num_bytes g' = num_bytes g \<and> num_xfer g' = num_xfer g
        \<and> (\<forall>i\<in>set [0 ..< nat (sint (xfr_num_iso_packets xfr))].
              i < length (xfr_iso_packet_desc xfr) \<and> pack_ok xfr i)"
      then show "?R g'"
        using passes_iso(1) [OF True iso] by blast
    qed
    with iso show ?thesis by simp
  next
    case False
    with True show ?thesis by (simp add: passes_def)
  qed
  have second: "ensures (dump_loop is xfr (log Fn_cb_xfr c g1)) ?S (\<lambda>_. ?R)"
    if "?R g1" for g1 "is" c
    by (rule ensures_mono [OF dump_loop_outcome]) (use that in auto)
  have third: "ensures
       (let g' = g2\<lparr>num_bytes := num_bytes g2 + scast (xfr_actual_length xfr)\<rparr>;
            g' = g'\<lparr>num_xfer := num_xfer g' + 1\<rparr>;
            g' = log Fn_cb_xfr (Libusb_submit_transfer p) g'
        in if sint rc < 0 then
             Stop (Exited 1)
               (log Fn_cb_xfr (Exit_call 1)
                 (log Fn_cb_xfr (Fprintf_stderr ''error re-submitting URB\<newline>'' []) g'))
           else Go () g') ?S ?Q"
    if "?R g2" for g2
    using that by (simp add: Let_def tally_one)
  show ?thesis
    apply (simp only: cb_xfr_def True simp_thms if_False)
    apply (rule ensures_bind [OF first])
    apply (rule ensures_bind [OF second])
     apply assumption
    apply (rule third)
    apply assumption
    done
qed

lemma cue_nonfatal:
  "\<forall>h\<in>set hs. \<not> fatal h \<Longrightarrow> counted_until_exit (hs @ hs') = completed hs @ counted_until_exit hs'"
  by (induction hs rule: counted_until_exit.induct) auto

lemma cue_fatal:
  "\<exists>h\<in>set hs. fatal h \<Longrightarrow> counted_until_exit (hs @ hs') = counted_until_exit hs"
  by (induction hs rule: counted_until_exit.induct) auto

lemma cue_completed: "\<forall>h\<in>set hs. \<not> fatal h \<Longrightarrow> counted_until_exit hs = completed hs"
  using cue_nonfatal [of hs "[]"] by simp

lemma happen_outcome:
  "ensures (happen h g)
     (\<lambda>hl g'. hl = Undefined_behaviour
        \<or> (\<exists>c. hl = Exited c) \<and> fatal h \<and> tally g (counted_until_exit [h]) g')
     (\<lambda>_ g'. \<not> fatal h \<and> tally g (completed [h]) g')"
proof (cases h)
  case (Completion p xfr rc)
  show ?thesis
    unfolding Completion happen.simps
    by (rule ensures_mono [OF cb_xfr_outcome]) (auto split: if_splits)
next
  case (Sigint tv)
  show ?thesis
    unfolding Sigint happen.simps
    by (rule ensures_mono [OF sig_hdlr_frame]) (simp_all add: sig_frame_counters tally_none)
qed

lemma dispatch_outcome:
  "ensures (dispatch hs g)
     (\<lambda>hl g'. hl = Undefined_behaviour
        \<or> (\<exists>c. hl = Exited c) \<and> (\<exists>h\<in>set hs. fatal h) \<and> tally g (counted_until_exit hs) g')
     (\<lambda>_ g'. (\<forall>h\<in>set hs. \<not> fatal h) \<and> tally g (completed hs) g')"
proof (induction hs arbitrary: g)
  case Nil
  show ?case by simp
next
  case (Cons h hs)
  let ?S = "\<lambda>hl g'. hl = Undefined_behaviour
        \<or> (\<exists>c. hl = Exited c) \<and> (\<exists>x\<in>set (h # hs). fatal x)
           \<and> tally g (counted_until_exit (h # hs)) g'"
  let ?Q = "\<lambda>_ g'. (\<forall>x\<in>set (h # hs). \<not> fatal x) \<and> tally g (completed (h # hs)) g'"
  show ?case
    unfolding dispatch.simps
  proof (rule ensures_bind [OF ensures_mono [OF happen_outcome]])
    fix hl g'
    assume "hl = Undefined_behaviour
        \<or> (\<exists>c. hl = Exited c) \<and> fatal h \<and> tally g (counted_until_exit [h]) g'"
    then show "?S hl g'"
      using cue_fatal [of "[h]" hs] by auto
  next
    fix a g1 assume "\<not> fatal h \<and> tally g (completed [h]) g1"
    then show "\<not> fatal h \<and> tally g (completed [h]) g1" .
  next
    fix a g1 assume *: "\<not> fatal h \<and> tally g (completed [h]) g1"
    have cue: "counted_until_exit (h # hs) = completed [h] @ counted_until_exit hs"
      using cue_nonfatal [of "[h]" hs] * by simp
    show "ensures (dispatch hs g1) ?S ?Q"
    proof (rule ensures_mono [OF Cons.IH [of g1]])
      fix hl g'
      assume "hl = Undefined_behaviour
        \<or> (\<exists>c. hl = Exited c) \<and> (\<exists>x\<in>set hs. fatal x) \<and> tally g1 (counted_until_exit hs) g'"
      then show "?S hl g'"
        unfolding cue using * by (auto intro: tally_trans)
    next
      fix b g'
      assume "(\<forall>x\<in>set hs. \<not> fatal x) \<and> tally g1 (completed hs) g'"
      then show "?Q b g'"
        unfolding completed_Cons [of h hs] using * by (auto intro: tally_trans)
    qed
  qed
qed

lemma libusb_handle_events_outcome:
  "ensures (libusb_handle_events r g)
     (\<lambda>hl g'. hl = Undefined_behaviour
        \<or> (\<exists>c. hl = Exited c) \<and> (\<exists>h\<in>set (r_happenings r). fatal h)
           \<and> tally g (counted_until_exit (r_happenings r)) g')
     (\<lambda>_ g'. (\<forall>h\<in>set (r_happenings r). \<not> fatal h) \<and> tally g (completed (r_happenings r)) g')"
  unfolding libusb_handle_events_def
  by (rule ensures_bind [OF ensures_mono [OF dispatch_outcome]]) simp_all

lemma event_loop_outcome:
  "ensures (event_loop rs rc g)
     (\<lambda>hl g'. \<forall>c. hl = Exited c \<longrightarrow>
        tally g (counted_until_exit (concat (map r_happenings rs))) g')
     (\<lambda>_ _. True)"
proof (induction rs arbitrary: g rc)
  case Nil
  show ?case by simp
next
  case (Cons r rs)
  let ?S = "\<lambda>hl g'. \<forall>c. hl = Exited c \<longrightarrow>
        tally g (counted_until_exit (concat (map r_happenings (r # rs)))) g'"
  show ?case
  proof (cases "do_exit g \<noteq> 0")
    case True
    then show ?thesis by simp
  next
    case False
    have body: "ensures
        (bind (libusb_handle_events r g)
           (\<lambda>rc g. if rc \<noteq> LIBUSB_SUCCESS then Go rc g else event_loop rs rc g))
        ?S (\<lambda>_ _. True)"
    proof (rule ensures_bind [OF ensures_mono [OF libusb_handle_events_outcome]])
      fix hl g'
      assume "hl = Undefined_behaviour
        \<or> (\<exists>c. hl = Exited c) \<and> (\<exists>h\<in>set (r_happenings r). fatal h)
           \<and> tally g (counted_until_exit (r_happenings r)) g'"
      then have "tally g (counted_until_exit (concat (map r_happenings (r # rs)))) g'"
        if "hl = Exited c" for c
        using that cue_fatal [of "r_happenings r" "concat (map r_happenings rs)"] by auto
      then show "?S hl g'" by blast
    next
      fix a g1
      assume "(\<forall>h\<in>set (r_happenings r). \<not> fatal h) \<and> tally g (completed (r_happenings r)) g1"
      then show "(\<forall>h\<in>set (r_happenings r). \<not> fatal h) \<and> tally g (completed (r_happenings r)) g1" .
    next
      fix rc1 g1
      assume *: "(\<forall>h\<in>set (r_happenings r). \<not> fatal h) \<and> tally g (completed (r_happenings r)) g1"
      have cue: "counted_until_exit (concat (map r_happenings (r # rs)))
          = completed (r_happenings r) @ counted_until_exit (concat (map r_happenings rs))"
        using * by (simp add: cue_nonfatal)
      have el: "ensures (event_loop rs rc1 g1) ?S (\<lambda>_ _. True)"
        unfolding cue
        by (rule ensures_mono [OF Cons.IH [of rc1 g1]]) (use * in \<open>auto intro: tally_trans\<close>)
      show "ensures (if rc1 \<noteq> LIBUSB_SUCCESS then Go rc1 g1 else event_loop rs rc1 g1)
          ?S (\<lambda>_ _. True)"
      proof (cases "rc1 \<noteq> LIBUSB_SUCCESS")
        case True
        then show ?thesis by simp
      next
        case False
        with el show ?thesis by simp
      qed
    qed
    from False have eq: "event_loop (r # rs) rc g =
        bind (libusb_handle_events r g)
           (\<lambda>rc g. if rc \<noteq> LIBUSB_SUCCESS then Go rc g else event_loop rs rc g)"
      by simp
    show ?thesis
      unfolding eq by (rule body)
  qed
qed

lemma quiet_ensures:
  "quiet g r \<Longrightarrow> (\<And>g'. S Undefined_behaviour g') \<Longrightarrow> (\<And>a g'. Q a g') \<Longrightarrow> ensures r S Q"
  by (cases r) (simp_all add: quiet_def)

lemma main_loop_exit_counters:
  assumes "loop_reached env"
  shows "ensures (main env)
     (\<lambda>h g'. \<forall>c. h = Exited c \<longrightarrow>
        tally initial_globals (counted_until_exit (concat (map r_happenings (e_rounds env)))) g')
     (\<lambda>_ _. True)"
proof -
  let ?S = "\<lambda>h g'. \<forall>c. h = Exited c \<longrightarrow>
        tally initial_globals (counted_until_exit (concat (map r_happenings (e_rounds env)))) g'"
  have eq: "main env =
      bind (lib_call env P_sigaction Fn_main Sigaction_SIGINT initial_globals)
      (\<lambda>_ g.
      bind (lib_call env P_init Fn_main (Libusb_init_context None) g)
      (\<lambda>_ g.
      bind (lib_call env P_open Fn_main (Libusb_open_device_with_vid_pid None 0x16c0 0x0763) g)
      (\<lambda>_ g.
      bind (lib_call env P_claim Fn_main (claim_call env) (g\<lparr>devh := e_open env\<rparr>))
      (\<lambda>_ g.
      bind (benchmark_in env EP_ISO_IN g)
      (\<lambda>_ g.
      bind (event_loop (e_rounds env) (e_claim_rc env) g)
      (\<lambda>rc g.
      bind (lib_call env P_release Fn_main (Libusb_release_interface (devh g) 2) g)
      (\<lambda>_ g. main_out env rc g)))))))"
  proof -
    from assms obtain h where "e_open env = Some h" by (auto simp: loop_reached_def)
    with assms show ?thesis
      by (simp add: main_def Let_def claim_call_def loop_reached_def)
  qed
  have after: "ensures
      (bind (lib_call env P_release Fn_main (Libusb_release_interface (devh g) 2) g)
         (\<lambda>_ g. main_out env rc g)) ?S (\<lambda>_ _. True)" for rc g
  proof (rule quiet_ensures [of g])
    show "quiet g (bind (lib_call env P_release Fn_main (Libusb_release_interface (devh g) 2) g)
         (\<lambda>_ g. main_out env rc g))"
    proof (rule quiet_bind [OF quiet_lib_call])
      fix a :: unit and g1 :: globals
      assume "num_bytes g1 = num_bytes g" "num_xfer g1 = num_xfer g"
      then show "quiet g1 (main_out env rc g1)"
        by (rule_tac quiet_main_out)
    qed
  qed simp_all
  have loop: "ensures
      (bind (event_loop (e_rounds env) (e_claim_rc env) g)
         (\<lambda>rc g. bind (lib_call env P_release Fn_main (Libusb_release_interface (devh g) 2) g)
                   (\<lambda>_ g. main_out env rc g))) ?S (\<lambda>_ _. True)"
    if "num_bytes g = 0" "num_xfer g = 0" for g
  proof (rule ensures_bind [OF ensures_mono [OF event_loop_outcome]])
    fix hl g'
    assume "\<forall>c. hl = Exited c \<longrightarrow>
        tally g (counted_until_exit (concat (map r_happenings (e_rounds env)))) g'"
    then show "?S hl g'"
      using that by (simp add: tally_def initial_globals_def)
  next
    fix rc' :: cint and g' :: globals
    assume True
    then show True .
  next
    fix rc' g'
    show "ensures
        (bind (lib_call env P_release Fn_main (Libusb_release_interface (devh g') 2) g')
           (\<lambda>_ g. main_out env rc' g)) ?S (\<lambda>_ _. True)"
      by (rule after)
  qed
  have z: "num_bytes initial_globals = 0" "num_xfer initial_globals = 0"
    by (simp_all add: initial_globals_def)
  show ?thesis
    unfolding eq
    apply (rule quiet_ensures_bind [OF quiet_lib_call], simp)
    apply (rule quiet_ensures_bind [OF quiet_lib_call], simp)
    apply (rule quiet_ensures_bind [OF quiet_lib_call], simp)
    apply (rule quiet_ensures_bind [OF quiet_lib_call_upd [of _ g for g]])
       apply (simp, simp, simp)
    apply (rule quiet_ensures_bind [OF quiet_benchmark_in], simp)
    apply (rule loop)
     apply (simp_all add: z)
    done
qed

lemma main_exit_counters:
  assumes "main env = Stop (Exited c) g"
  shows "tally initial_globals (exit_counted env) g"
proof (cases "sint (e_init_rc env) < 0")
  case True
  have "halted env (Exited c) g"
    using main_spec [of env] assms by simp
  with True show ?thesis
    by (simp add: halted_def staged_def exit_counted_def)
next
  case False
  have "halted env (Exited c) g"
    using main_spec [of env] assms by simp
  with False have "loop_reached env" by (simp add: halted_def)
  from main_loop_exit_counters [OF this] assms False show ?thesis
    by (simp add: exit_counted_def)
qed

lemma xfr_passes: "passes xfr_ok" "\<not> passes xfr_bad_packet"
  by (simp_all add: passes_def packets_def xfr_ok_def xfr_bad_packet_def
      LIBUSB_TRANSFER_COMPLETED_def LIBUSB_TRANSFER_TYPE_ISOCHRONOUS_def)

lemma main_env_resubmit_error: "\<exists>g. main env_resubmit_error = Stop (Exited 1) g"
  by (simp add: run_defs env_resubmit_error_def env_ok_def xfr_ok_def)









subsection \<open>Invariants kept by a run of main\<close>

lemma keeps_Go [simp]: "keeps J (Go a g) = J g"
  and keeps_Stop [simp]: "keeps J (Stop h g) = (h \<noteq> Undefined_behaviour \<longrightarrow> J g)"
  by (simp_all add: keeps_def)























lemma steps_made_early:
  "e_open env = None \<or> sint (e_claim_rc env) < 0 \<Longrightarrow> steps_made env k r = steps_made env 0 True"
  by (auto simp: steps_made_def split: option.splits)





lemma ran_update [simp]: "bench_ran cs g (g'\<lparr>tv_start := t\<rparr>) = bench_ran cs g g'"
  by (simp add: bench_ran_def)






lemma xfr_stalled_fails: "\<not> passes xfr_stalled"
  by (simp add: passes_def xfr_stalled_def xfr_ok_def LIBUSB_TRANSFER_COMPLETED_def)

section \<open>The statements of the specification\<close>

text \<open>
  C1. \<open>measure\<close> is to compute the elapsed milliseconds, also when the microseconds of
  the stop timestamp are below those of the start timestamp and a second is borrowed.
  The code borrows \<open>NSEC_PER_SEC\<close> (a thousand million) microseconds for the second:
  from 0.5 s to 1.0 s the elapsed time is 500 ms, the code computes 999500 ms, and
  prints a throughput of 2049 bytes per second for 2048000 bytes (4096000 would be right).
\<close>

theorem measure_borrow_off:
  "unat (measure_diff_msec \<lparr>tv_sec = 0, tv_usec = 500000\<rparr> \<lparr>tv_sec = 1, tv_usec = 0\<rparr>) = 999500
   \<and> elapsed_msec \<lparr>tv_sec = 0, tv_usec = 500000\<rparr> \<lparr>tv_sec = 1, tv_usec = 0\<rparr> = 500
   \<and> measure_fn \<lparr>tv_sec = 1, tv_usec = 0\<rparr>
        (initial_globals\<lparr>num_bytes := 2048000, num_xfer := 1000,
                          tv_start := \<lparr>tv_sec = 0, tv_usec = 500000\<rparr>\<rparr>)
      = Go ()
         (initial_globals\<lparr>num_bytes := 2048000, num_xfer := 1000,
            tv_start := \<lparr>tv_sec = 0, tv_usec = 500000\<rparr>,
            trace := [(Fn_measure, Get_timestamp),
              (Fn_measure,
               Printf ''%lu transfers (total %lu bytes) in %lu milliseconds => %lu bytes/sec\<newline>''
                 [Arg_lu 1000, Arg_lu 2048000, Arg_lu 999500, Arg_lu 2049])]\<rparr>)"
  by (simp add: measure_diff_msec_def NSEC_PER_SEC_def elapsed_msec_def elapsed_usec_def
      measure_fn_def log_def initial_globals_def)

text \<open>
  C2. Whenever the callback is called with a transfer whose status is
  \<open>LIBUSB_TRANSFER_COMPLETED\<close> and, if it is isochronous, whose packets all have that
  status, it prints, then re-submits the transfer it was given (the pointer \<open>p\<close>), and
  makes no other library call; if the library refuses the re-submission (a negative
  return code) the process exits with status 1, otherwise the callback returns. This
  holds in every state, so at every such completion. The transfer is within bounds when
  \<open>num_iso_packets\<close> and \<open>actual_length\<close> do not exceed the arrays they index.
\<close>

theorem cb_xfr_resubmits:
  assumes "xfr_status xfr = LIBUSB_TRANSFER_COMPLETED"
    and "xfr_type xfr = LIBUSB_TRANSFER_TYPE_ISOCHRONOUS \<longrightarrow>
           (\<forall>pk\<in>set (packets xfr). pkt_status pk = LIBUSB_TRANSFER_COMPLETED)"
    and "in_bounds xfr"
  shows "\<exists>prints g'.
           cb_xfr p xfr rc g = (if sint rc < 0 then Stop (Exited 1) g' else Go () g')
         \<and> (\<forall>e\<in>set prints. is_printf e)
         \<and> added g (cb_xfr p xfr rc g) =
             prints @ (Fn_cb_xfr, Libusb_submit_transfer p)
             # (if sint rc < 0
                then [(Fn_cb_xfr, Fprintf_stderr ''error re-submitting URB\<newline>'' []),
                      (Fn_cb_xfr, Exit_call 1)]
                else [])"
proof -
  have ok: "xfr_type xfr = LIBUSB_TRANSFER_TYPE_ISOCHRONOUS \<longrightarrow>
           (\<forall>i < nat (sint (xfr_num_iso_packets xfr)). pack_ok xfr i)"
    using assms(2,3) packets_index [of xfr] by (simp add: in_bounds_def)
  note eq = cb_xfr_completed [OF assms(1,3) ok, of p rc g]
  have pr: "\<forall>e\<in>set (cb_prints xfr). is_printf e"
    by (auto simp: cb_prints_def is_printf_def pack_print_def length_print_def dump_print_def)
  show ?thesis
  proof (cases "sint rc < 0")
    case True
    show ?thesis
      apply (rule exI [of _ "cb_prints xfr"])
      apply (rule exI [of _ "logs (cb_prints xfr @ (Fn_cb_xfr, Libusb_submit_transfer p) # resubmit_error)
                (counted xfr g)"])
      using True pr
      apply (simp add: eq logs_counted)
      apply (simp add: added_def logs_def counted_def resubmit_error_def)
      done
  next
    case False
    show ?thesis
      apply (rule exI [of _ "cb_prints xfr"])
      apply (rule exI [of _ "logs (cb_prints xfr @ [(Fn_cb_xfr, Libusb_submit_transfer p)])
                (counted xfr g)"])
      using False pr
      apply (simp add: eq logs_counted)
      apply (simp add: added_def logs_def counted_def)
      done
  qed
qed

theorem cb_xfr_resubmits_witness:
  "xfr_status xfr_ok = LIBUSB_TRANSFER_COMPLETED
   \<and> map pkt_status (packets xfr_ok) = [LIBUSB_TRANSFER_COMPLETED, LIBUSB_TRANSFER_COMPLETED]
   \<and> in_bounds xfr_ok
   \<and> (\<exists>prints g'. cb_xfr 9 xfr_ok 0 initial_globals = Go () g'
        \<and> (\<forall>e\<in>set prints. is_printf e)
        \<and> added initial_globals (cb_xfr 9 xfr_ok 0 initial_globals) =
             prints @ [(Fn_cb_xfr, Libusb_submit_transfer 9)])"
  using cb_xfr_resubmits [OF xfr_ok_facts, of 9 0 initial_globals] xfr_ok_facts(1,3)
  by (simp add: xfr_ok_def packets_def LIBUSB_TRANSFER_COMPLETED_def)

text \<open>
  C3, as stated, fails for the opening: when \<open>libusb_init_context\<close> returns an error,
  \<open>main\<close> prints the message and exits (lines 205 to 208) before it opens any device.
\<close>

theorem main_opens_counterexample:
  "trace (final (main env_init_error)) =
     [(Fn_main, Sigaction_SIGINT), (Fn_main, Libusb_init_context None),
      (Fn_main, Libusb_error_name (- 99)),
      (Fn_main, Fprintf_stderr ''Error initializing libusb: %s\<newline>'' [Arg_error_name (- 99)]),
      (Fn_main, Exit_call 1)]
   \<and> defined_run (main env_init_error)
   \<and> filter is_open (calls (trace (final (main env_init_error)))) = []"
  by (simp add: run_defs env_init_error_def env_ok_def calls_def is_open_def)

text \<open>
  C3, amended. In every run with defined behaviour: if \<open>libusb_init_context\<close> returns
  an error, \<open>main\<close> opens no device and claims no interface. Otherwise \<open>main\<close> makes
  exactly one call that opens a device, for vendor 0x16c0 and product 0x0763 on the
  default context (the null pointer), and after it, only if the handle returned is not
  null, exactly one call that claims an interface: interface 2 of that handle. These
  are all the calls that open or claim in the whole trace. And in no run is a transfer
  allocated or submitted before that claim (so never, when no interface is claimed).
\<close>

theorem main_opens_then_claims:
  assumes "defined_run (main env)"
  shows "filter (\<lambda>c. is_open c \<or> is_claim c) (calls (trace (final (main env)))) =
           (if sint (e_init_rc env) < 0 then []
            else Libusb_open_device_with_vid_pid None 0x16c0 0x0763
                 # (if e_open env = None then [] else [Libusb_claim_interface (e_open env) 2]))
       \<and> before (Libusb_claim_interface (e_open env) 2) (\<lambda>e. transfer_call (snd e))
           (trace (final (main env)))"
proof (cases env rule: main_cases)
  case (returns rc g)
  then obtain k where k: "world env g" "own (trace g) = script env k"
    by (auto simp: returned_def staged_def)
  have "filter (\<lambda>c. is_open c \<or> is_claim c) (calls (trace g))
      = filter (\<lambda>c. is_open c \<or> is_claim c) (script env k)"
    using world_filter_calls [OF k(1), of "\<lambda>c. is_open c \<or> is_claim c"] foreign_not_open_claim k(2)
    by simp
  moreover have "before (Libusb_claim_interface (e_open env) 2) (\<lambda>e. transfer_call (snd e)) (trace g)"
    using k(1) by (simp add: world_def claim_call_def)
  ultimately show ?thesis
    by (simp add: returns(1) filter_open_claim_script(1))
next
  case (halts h g)
  with assms have h: "h \<noteq> Undefined_behaviour" by simp
  have w: "world env g" using halts(2) by (simp add: halted_def)
  have b: "before (Libusb_claim_interface (e_open env) 2) (\<lambda>e. transfer_call (snd e)) (trace g)"
    using w by (simp add: world_def claim_call_def)
  have fo: "filter (\<lambda>c. is_open c \<or> is_claim c) (calls (trace g))
      = filter (\<lambda>c. is_open c \<or> is_claim c) (own (trace g))"
    using world_filter_calls [OF w, of "\<lambda>c. is_open c \<or> is_claim c"] foreign_not_open_claim
    by simp
  show ?thesis
  proof (cases "sint (e_init_rc env) < 0")
    case True
    have "own (trace g) = script env 0"
      using halts(2) h True by (cases h) (auto simp: halted_def staged_def loop_reached_def)
    with True b fo show ?thesis
      by (simp add: halts(1) filter_open_claim_script(1))
  next
    case False
    have "loop_reached env \<and> (\<exists>k. own (trace g) = running env k)"
      using halts(2) h False by (cases h) (auto simp: halted_def staged_def)
    then obtain k where k: "loop_reached env" "own (trace g) = running env k" by blast
    then have "e_open env \<noteq> None" by (simp add: loop_reached_def)
    with False b fo k show ?thesis
      by (simp add: halts(1) filter_open_claim_script(2) [OF k(1)])
  qed
qed

theorem main_opens_then_claims_witness:
  "defined_run (main env_ok)
   \<and> filter (\<lambda>c. is_open c \<or> is_claim c) (calls (trace (final (main env_ok))))
       = [Libusb_open_device_with_vid_pid None 0x16c0 0x0763, Libusb_claim_interface (Some 7) 2]
   \<and> before (Libusb_claim_interface (Some 7) 2) (\<lambda>e. transfer_call (snd e))
       (trace (final (main env_ok)))
   \<and> defined_run (main env_no_device)
   \<and> filter (\<lambda>c. is_open c \<or> is_claim c) (calls (trace (final (main env_no_device))))
       = [Libusb_open_device_with_vid_pid None 0x16c0 0x0763]
   \<and> defined_run (main env_init_error)
   \<and> filter (\<lambda>c. is_open c \<or> is_claim c) (calls (trace (final (main env_init_error)))) = []"
proof -
  have 1: "filter (\<lambda>c. is_open c \<or> is_claim c) (calls (trace (final (main env_ok))))
       = [Libusb_open_device_with_vid_pid None 0x16c0 0x0763, Libusb_claim_interface (Some 7) 2]
   \<and> before (Libusb_claim_interface (Some 7) 2) (\<lambda>e. transfer_call (snd e))
       (trace (final (main env_ok)))"
    using main_opens_then_claims [OF env_ok_facts(1)] by (simp add: env_ok_def)
  have 2: "filter (\<lambda>c. is_open c \<or> is_claim c) (calls (trace (final (main env_no_device))))
       = [Libusb_open_device_with_vid_pid None 0x16c0 0x0763]"
    using main_opens_then_claims [OF env_no_device_facts(1)] env_no_device_facts(2,3) by simp
  have 3: "filter (\<lambda>c. is_open c \<or> is_claim c) (calls (trace (final (main env_init_error)))) = []"
    using main_opens_then_claims [OF env_error_facts(1)] env_error_facts(2) by simp
  from 1 2 3 env_ok_facts(1) env_no_device_facts(1) env_error_facts(1) show ?thesis by simp
qed




text \<open>
  C5. What the program does at each of the six failures it detects. In \<open>main\<close> (runs with
  defined behaviour): when the initialisation fails it asks for the error's name, prints
  the message and exits with status 1; when no device is found it prints the message
  and goes on to \<open>libusb_exit\<close>; when the claim fails it asks for the name, prints the
  message and goes on to \<open>libusb_close\<close> and \<open>libusb_exit\<close>; it returns the code it
  has. In the callback: a transfer with another status than
  \<open>LIBUSB_TRANSFER_COMPLETED\<close> gives the message, \<open>libusb_free_transfer\<close> and exit
  status 3; a packet with another status gives the message and exit status 5; a refused
  re-submission gives the message and exit status 1. In each case the calls listed are
  all there are: the failed call is not made again, and nothing else is attempted.
\<close>

theorem failures_print_and_stop:
  "(defined_run (main env) \<and> sint (e_init_rc env) < 0 \<longrightarrow>
      (\<exists>g. main env = Stop (Exited 1) g
         \<and> own (trace g) =
             [Sigaction_SIGINT, Libusb_init_context None, Libusb_error_name (e_init_rc env),
              Fprintf_stderr ''Error initializing libusb: %s\<newline>'' [Arg_error_name (e_init_rc env)],
              Exit_call 1]))
   \<and> (defined_run (main env) \<and> \<not> sint (e_init_rc env) < 0 \<and> e_open env = None \<longrightarrow>
      (\<exists>g. main env = Go (e_init_rc env) g
         \<and> own (trace g) =
             [Sigaction_SIGINT, Libusb_init_context None,
              Libusb_open_device_with_vid_pid None 0x16c0 0x0763,
              Fprintf_stderr ''Error finding USB device\<newline>'' [], Libusb_exit None]))
   \<and> (defined_run (main env) \<and> \<not> sint (e_init_rc env) < 0 \<and> e_open env = Some h
        \<and> sint (e_claim_rc env) < 0 \<longrightarrow>
      (\<exists>g. main env = Go (e_claim_rc env) g
         \<and> own (trace g) =
             [Sigaction_SIGINT, Libusb_init_context None,
              Libusb_open_device_with_vid_pid None 0x16c0 0x0763,
              Libusb_claim_interface (Some h) 2, Libusb_error_name (e_claim_rc env),
              Fprintf_stderr ''Error claiming interface: %s\<newline>'' [Arg_error_name (e_claim_rc env)],
              Libusb_close h, Libusb_exit None]))
   \<and> (xfr_status xfr \<noteq> LIBUSB_TRANSFER_COMPLETED \<longrightarrow>
      (\<exists>g'. cb_xfr p xfr rc g = Stop (Exited 3) g'
         \<and> added g (cb_xfr p xfr rc g) =
             [(Fn_cb_xfr, Fprintf_stderr ''transfer status %d\<newline>'' [Arg_d (sint (xfr_status xfr))]),
              (Fn_cb_xfr, Libusb_free_transfer p), (Fn_cb_xfr, Exit_call 3)]))
   \<and> (xfr_status xfr = LIBUSB_TRANSFER_COMPLETED \<and> xfr_type xfr = LIBUSB_TRANSFER_TYPE_ISOCHRONOUS
        \<and> in_bounds xfr
        \<and> (\<exists>pk\<in>set (packets xfr). pkt_status pk \<noteq> LIBUSB_TRANSFER_COMPLETED) \<longrightarrow>
      (\<exists>g' lines i st. cb_xfr p xfr rc g = Stop (Exited 5) g'
         \<and> (\<forall>e\<in>set lines. is_printf e)
         \<and> added g (cb_xfr p xfr rc g) =
             lines @ [(Fn_cb_xfr, Fprintf_stderr ''Error: pack %d status %d\<newline>'' [Arg_d i, Arg_d st]),
                      (Fn_cb_xfr, Exit_call 5)]))
   \<and> (xfr_status xfr = LIBUSB_TRANSFER_COMPLETED \<and> in_bounds xfr
        \<and> (xfr_type xfr = LIBUSB_TRANSFER_TYPE_ISOCHRONOUS \<longrightarrow>
             (\<forall>pk\<in>set (packets xfr). pkt_status pk = LIBUSB_TRANSFER_COMPLETED))
        \<and> sint rc < 0 \<longrightarrow>
      (\<exists>g' lines. cb_xfr p xfr rc g = Stop (Exited 1) g'
         \<and> (\<forall>e\<in>set lines. is_printf e)
         \<and> added g (cb_xfr p xfr rc g) =
             lines @ [(Fn_cb_xfr, Libusb_submit_transfer p),
                      (Fn_cb_xfr, Fprintf_stderr ''error re-submitting URB\<newline>'' []),
                      (Fn_cb_xfr, Exit_call 1)]))"
proof (intro conjI impI; (elim conjE)?)
  assume d: "defined_run (main env)" and f: "sint (e_init_rc env) < 0"
  show "\<exists>g. main env = Stop (Exited 1) g
         \<and> own (trace g) =
             [Sigaction_SIGINT, Libusb_init_context None, Libusb_error_name (e_init_rc env),
              Fprintf_stderr ''Error initializing libusb: %s\<newline>'' [Arg_error_name (e_init_rc env)],
              Exit_call 1]"
  proof (cases env rule: main_cases)
    case (returns rc g)
    with f show ?thesis by (simp add: returned_def)
  next
    case (halts h g)
    with d have "h \<noteq> Undefined_behaviour" by simp
    with halts f show ?thesis
      by (cases h) (auto simp: halted_def staged_def script_def loop_reached_def)
  qed
next
  assume d: "defined_run (main env)" and f: "\<not> sint (e_init_rc env) < 0" "e_open env = None"
  show "\<exists>g. main env = Go (e_init_rc env) g
         \<and> own (trace g) =
             [Sigaction_SIGINT, Libusb_init_context None,
              Libusb_open_device_with_vid_pid None 0x16c0 0x0763,
              Fprintf_stderr ''Error finding USB device\<newline>'' [], Libusb_exit None]"
  proof (cases env rule: main_cases)
    case (returns rc g)
    with f show ?thesis
      by (auto simp: returned_def staged_def script_def teardown_def)
  next
    case (halts h g)
    with d have "h \<noteq> Undefined_behaviour" by simp
    with halts f show ?thesis
      by (cases h) (auto simp: halted_def loop_reached_def)
  qed
next
  assume d: "defined_run (main env)"
    and f: "\<not> sint (e_init_rc env) < 0" "e_open env = Some h" "sint (e_claim_rc env) < 0"
  show "\<exists>g. main env = Go (e_claim_rc env) g
         \<and> own (trace g) =
             [Sigaction_SIGINT, Libusb_init_context None,
              Libusb_open_device_with_vid_pid None 0x16c0 0x0763,
              Libusb_claim_interface (Some h) 2, Libusb_error_name (e_claim_rc env),
              Fprintf_stderr ''Error claiming interface: %s\<newline>'' [Arg_error_name (e_claim_rc env)],
              Libusb_close h, Libusb_exit None]"
  proof (cases env rule: main_cases)
    case (returns rc g)
    with f show ?thesis
      by (auto simp: returned_def staged_def script_def teardown_def claim_call_def)
  next
    case (halts hl g)
    with d have "hl \<noteq> Undefined_behaviour" by simp
    with halts f show ?thesis
      by (cases hl) (auto simp: halted_def loop_reached_def)
  qed
next
  assume "xfr_status xfr \<noteq> LIBUSB_TRANSFER_COMPLETED"
  then show "\<exists>g'. cb_xfr p xfr rc g = Stop (Exited 3) g'
         \<and> added g (cb_xfr p xfr rc g) =
             [(Fn_cb_xfr, Fprintf_stderr ''transfer status %d\<newline>'' [Arg_d (sint (xfr_status xfr))]),
              (Fn_cb_xfr, Libusb_free_transfer p), (Fn_cb_xfr, Exit_call 3)]"
    by (simp add: cb_xfr_status added_logs)
next
  let ?n = "nat (sint (xfr_num_iso_packets xfr))"
  assume a: "xfr_status xfr = LIBUSB_TRANSFER_COMPLETED"
    "xfr_type xfr = LIBUSB_TRANSFER_TYPE_ISOCHRONOUS" "in_bounds xfr"
    "\<exists>pk\<in>set (packets xfr). pkt_status pk \<noteq> LIBUSB_TRANSFER_COMPLETED"
  have bound: "?n \<le> length (xfr_iso_packet_desc xfr)"
    using a(2,3) by (simp add: in_bounds_def)
  have bad: "\<exists>i < ?n. \<not> pack_ok xfr i"
    using a(4) packets_index [OF bound] by blast
  note eq = cb_xfr_bad_packet [OF a(1,2) bound bad, of p rc g]
  let ?lines = "map (pack_print xfr) (takeWhile (pack_ok xfr) [0 ..< ?n])"
  let ?i = "hd (dropWhile (pack_ok xfr) [0 ..< ?n])"
  have "\<forall>e\<in>set ?lines. is_printf e"
    by (auto simp: is_printf_def pack_print_def)
  moreover have "added g (cb_xfr p xfr rc g) =
        ?lines @ [(Fn_cb_xfr, Fprintf_stderr ''Error: pack %d status %d\<newline>''
                    [Arg_d (int ?i), Arg_d (sint (pkt_status (xfr_iso_packet_desc xfr ! ?i)))]),
                  (Fn_cb_xfr, Exit_call 5)]"
    by (simp add: eq added_logs pack_error_def)
  ultimately show "\<exists>g' lines i st. cb_xfr p xfr rc g = Stop (Exited 5) g'
         \<and> (\<forall>e\<in>set lines. is_printf e)
         \<and> added g (cb_xfr p xfr rc g) =
             lines @ [(Fn_cb_xfr, Fprintf_stderr ''Error: pack %d status %d\<newline>'' [Arg_d i, Arg_d st]),
                      (Fn_cb_xfr, Exit_call 5)]"
    using eq by blast
next
  let ?n = "nat (sint (xfr_num_iso_packets xfr))"
  assume a: "xfr_status xfr = LIBUSB_TRANSFER_COMPLETED" "in_bounds xfr"
    "xfr_type xfr = LIBUSB_TRANSFER_TYPE_ISOCHRONOUS \<longrightarrow>
       (\<forall>pk\<in>set (packets xfr). pkt_status pk = LIBUSB_TRANSFER_COMPLETED)"
    "sint rc < 0"
  have ok: "xfr_type xfr = LIBUSB_TRANSFER_TYPE_ISOCHRONOUS \<longrightarrow> (\<forall>i < ?n. pack_ok xfr i)"
    using a(2,3) packets_index [of xfr] by (simp add: in_bounds_def)
  note eq = cb_xfr_completed [OF a(1,2) ok, of p rc g]
  have "\<forall>e\<in>set (cb_prints xfr). is_printf e"
    by (auto simp: cb_prints_def is_printf_def pack_print_def length_print_def dump_print_def)
  moreover have "added g (cb_xfr p xfr rc g) =
      cb_prints xfr @ [(Fn_cb_xfr, Libusb_submit_transfer p),
                      (Fn_cb_xfr, Fprintf_stderr ''error re-submitting URB\<newline>'' []),
                      (Fn_cb_xfr, Exit_call 1)]"
    using a(4) by (simp add: eq logs_counted added_def logs_def counted_def resubmit_error_def)
  ultimately show "\<exists>g' lines. cb_xfr p xfr rc g = Stop (Exited 1) g'
         \<and> (\<forall>e\<in>set lines. is_printf e)
         \<and> added g (cb_xfr p xfr rc g) =
             lines @ [(Fn_cb_xfr, Libusb_submit_transfer p),
                      (Fn_cb_xfr, Fprintf_stderr ''error re-submitting URB\<newline>'' []),
                      (Fn_cb_xfr, Exit_call 1)]"
    using eq a(4) by auto
qed

theorem failures_print_and_stop_witness:
  "(\<exists>g. main env_init_error = Stop (Exited 1) g)
   \<and> (\<exists>g. main env_no_device = Go 0 g)
   \<and> (\<exists>g. main env_claim_error = Go (- 6) g)
   \<and> (\<exists>g'. cb_xfr 9 xfr_stalled 0 initial_globals = Stop (Exited 3) g')
   \<and> (\<exists>g'. cb_xfr 9 xfr_bad_packet 0 initial_globals = Stop (Exited 5) g')
   \<and> (\<exists>g'. cb_xfr 9 xfr_ok (- 1) initial_globals = Stop (Exited 1) g')"
proof -
  have a: "\<exists>g. main env_init_error = Stop (Exited 1) g"
    using failures_print_and_stop [of env_init_error] env_error_facts(1,2) by blast
  have b: "\<exists>g. main env_no_device = Go 0 g"
  proof -
    have "e_init_rc env_no_device = 0" by (simp add: env_no_device_def env_ok_def)
    moreover have "\<exists>g. main env_no_device = Go (e_init_rc env_no_device) g"
      using failures_print_and_stop [of env_no_device, THEN conjunct2, THEN conjunct1]
        env_no_device_facts by blast
    ultimately show ?thesis by simp
  qed
  have c: "\<exists>g. main env_claim_error = Go (- 6) g"
  proof -
    have "e_claim_rc env_claim_error = - 6" by (simp add: env_claim_error_def env_ok_def)
    moreover have "\<exists>g. main env_claim_error = Go (e_claim_rc env_claim_error) g"
      using failures_print_and_stop [of env_claim_error 7, THEN conjunct2, THEN conjunct2,
          THEN conjunct1] env_error_facts(3-6) by blast
    ultimately show ?thesis by simp
  qed
  have d: "\<exists>g'. cb_xfr 9 xfr_stalled 0 initial_globals = Stop (Exited 3) g'"
    using failures_print_and_stop [of _ _ xfr_stalled 9 0 initial_globals]
    by (auto simp: xfr_stalled_def xfr_ok_def LIBUSB_TRANSFER_COMPLETED_def)
  have e: "\<exists>g'. cb_xfr 9 xfr_bad_packet 0 initial_globals = Stop (Exited 5) g'"
    using failures_print_and_stop [of _ _ xfr_bad_packet 9 0 initial_globals] xfr_bad_packet_facts
    by (auto simp: packets_def xfr_bad_packet_def LIBUSB_TRANSFER_COMPLETED_def)
  have f: "\<exists>g'. cb_xfr 9 xfr_ok (- 1) initial_globals = Stop (Exited 1) g'"
    using failures_print_and_stop [of _ _ xfr_ok 9 "- 1" initial_globals] xfr_ok_facts
    by auto
  from a b c d e f show ?thesis by blast
qed



text \<open>
  C7. In a run that reaches the loop (the library initialised, a device opened, the
  interface claimed): the calls \<open>main\<close> makes between \<open>benchmark_in\<close> and
  \<open>libusb_release_interface\<close> are calls of \<open>libusb_handle_events\<close> and nothing else.
  When \<open>main\<close> returns, either \<open>do_exit\<close> is set, and then the signal handler has run,
  or there was at least one call and the last one returned a code other than
  \<open>LIBUSB_SUCCESS\<close>, which is the code \<open>main\<close> returns. When the rounds of the
  environment end with the loop still running, \<open>do_exit\<close> is clear and every round was
  handled.
\<close>

theorem event_loop_exit:
  "(loop_reached env \<and> main env = Go rc g \<longrightarrow>
      (\<exists>k\<le>length (e_rounds env).
         own (trace g) =
           [Sigaction_SIGINT, Libusb_init_context None,
            Libusb_open_device_with_vid_pid None 0x16c0 0x0763,
            Libusb_claim_interface (e_open env) 2]
           @ bench_calls env EP_ISO_IN (e_open env)
           @ replicate k (Libusb_handle_events None)
           @ Libusb_release_interface (e_open env) 2 # teardown env
         \<and> (do_exit g \<noteq> 0 \<and> (\<exists>e\<in>set (trace g). fst e = Fn_measure)
            \<or> 0 < k \<and> rc = r_rc (e_rounds env ! (k - 1)) \<and> rc \<noteq> LIBUSB_SUCCESS)))
   \<and> (main env = Stop Still_running g \<longrightarrow>
      do_exit g = 0
      \<and> own (trace g) =
           [Sigaction_SIGINT, Libusb_init_context None,
            Libusb_open_device_with_vid_pid None 0x16c0 0x0763,
            Libusb_claim_interface (e_open env) 2]
           @ bench_calls env EP_ISO_IN (e_open env)
           @ replicate (length (e_rounds env)) (Libusb_handle_events None))"
proof (intro conjI impI; (elim conjE)?)
  assume lr: "loop_reached env" and m: "main env = Go rc g"
  have "returned env rc g"
    using m by (cases env rule: main_cases) simp_all
  then obtain k where k: "k \<le> length (e_rounds env)" "world env g" "own (trace g) = script env k"
    "do_exit g \<noteq> 0 \<or> 0 < k \<and> rc = r_rc (e_rounds env ! (k - 1)) \<and> rc \<noteq> LIBUSB_SUCCESS"
    using lr by (auto simp: returned_def staged_def loop_reached_def)
  have "do_exit g \<noteq> 0 \<longrightarrow> (\<exists>e\<in>set (trace g). fst e = Fn_measure)"
    using k(2) by (auto simp: world_def)
  with k(4) have "do_exit g \<noteq> 0 \<and> (\<exists>e\<in>set (trace g). fst e = Fn_measure)
            \<or> 0 < k \<and> rc = r_rc (e_rounds env ! (k - 1)) \<and> rc \<noteq> LIBUSB_SUCCESS"
    by blast
  moreover have "own (trace g) =
           [Sigaction_SIGINT, Libusb_init_context None,
            Libusb_open_device_with_vid_pid None 0x16c0 0x0763,
            Libusb_claim_interface (e_open env) 2]
           @ bench_calls env EP_ISO_IN (e_open env)
           @ replicate k (Libusb_handle_events None)
           @ Libusb_release_interface (e_open env) 2 # teardown env"
    using k(3) lr by (simp add: script_running running_def claim_call_def handle_call_def)
  ultimately show "\<exists>k\<le>length (e_rounds env).
         own (trace g) =
           [Sigaction_SIGINT, Libusb_init_context None,
            Libusb_open_device_with_vid_pid None 0x16c0 0x0763,
            Libusb_claim_interface (e_open env) 2]
           @ bench_calls env EP_ISO_IN (e_open env)
           @ replicate k (Libusb_handle_events None)
           @ Libusb_release_interface (e_open env) 2 # teardown env
         \<and> (do_exit g \<noteq> 0 \<and> (\<exists>e\<in>set (trace g). fst e = Fn_measure)
            \<or> 0 < k \<and> rc = r_rc (e_rounds env ! (k - 1)) \<and> rc \<noteq> LIBUSB_SUCCESS)"
    using k(1) by blast
next
  assume m: "main env = Stop Still_running g"
  have "halted env Still_running g"
    using m by (cases env rule: main_cases) simp_all
  then show "do_exit g = 0"
    and "own (trace g) =
           [Sigaction_SIGINT, Libusb_init_context None,
            Libusb_open_device_with_vid_pid None 0x16c0 0x0763,
            Libusb_claim_interface (e_open env) 2]
           @ bench_calls env EP_ISO_IN (e_open env)
           @ replicate (length (e_rounds env)) (Libusb_handle_events None)"
    by (simp_all add: halted_def staged_def running_def claim_call_def handle_call_def)
qed

theorem event_loop_exit_witness:
  "loop_reached env_ok
   \<and> (\<exists>g. main env_ok = Go 0 g \<and> do_exit g = 1 \<and> (\<exists>e\<in>set (trace g). fst e = Fn_measure))
   \<and> loop_reached env_handle_error
   \<and> (\<exists>g. main env_handle_error = Go (- 4) g \<and> do_exit g = 0
        \<and> r_rc (e_rounds env_handle_error ! 0) = - 4)
   \<and> (\<exists>g. main env_running = Stop Still_running g \<and> do_exit g = 0)"
proof -
  have lr: "loop_reached env_ok" "loop_reached env_handle_error"
    by (simp_all add: loop_reached_def env_ok_def env_handle_error_def)
  from main_env_ok obtain g where g: "main env_ok = Go 0 g" "do_exit g = 1" by blast
  from event_loop_exit [of env_ok 0 g, THEN conjunct1] lr(1) g
  have 1: "\<exists>e\<in>set (trace g). fst e = Fn_measure"
    by (auto simp: env_ok_def LIBUSB_SUCCESS_def)
  from main_env_handle_error obtain g' where g': "main env_handle_error = Go (- 4) g'" "do_exit g' = 0"
    by blast
  have 2: "r_rc (e_rounds env_handle_error ! 0) = - 4"
    by (simp add: env_handle_error_def)
  from main_env_running obtain g'' where g'': "main env_running = Stop Still_running g''" by blast
  from event_loop_exit [of env_running _ g'', THEN conjunct2] g''
  have 3: "do_exit g'' = 0" by blast
  from lr g 1 g' 2 g'' 3 show ?thesis by blast
qed




text \<open>
  C9. If the library was initialised and no device is found, \<open>main\<close> prints the error,
  claims no interface, allocates and submits nothing, calls \<open>libusb_exit\<close> and returns
  the code \<open>libusb_init_context\<close> returned: 0 when that code is \<open>LIBUSB_SUCCESS\<close>.
\<close>

theorem main_no_device:
  assumes "defined_run (main env)" and "\<not> sint (e_init_rc env) < 0" and "e_open env = None"
  shows "\<exists>g. main env = Go (e_init_rc env) g
       \<and> own (trace g) =
           [Sigaction_SIGINT, Libusb_init_context None,
            Libusb_open_device_with_vid_pid None 0x16c0 0x0763,
            Fprintf_stderr ''Error finding USB device\<newline>'' [], Libusb_exit None]
       \<and> (e_init_rc env = LIBUSB_SUCCESS \<longrightarrow> main env = Go 0 g)"
proof (cases env rule: main_cases)
  case (returns rc g)
  then have "rc = e_init_rc env" "\<exists>k. own (trace g) = script env k"
    using assms(3) by (auto simp: returned_def staged_def)
  then show ?thesis
    using returns(1) assms(2,3)
    by (auto simp: script_def teardown_def LIBUSB_SUCCESS_def)
next
  case (halts h g)
  with assms(1) have "h \<noteq> Undefined_behaviour" by simp
  with halts(2) assms(2,3) have False
    by (cases h) (auto simp: halted_def loop_reached_def)
  then show ?thesis ..
qed

theorem main_no_device_witness:
  "defined_run (main env_no_device) \<and> e_init_rc env_no_device = LIBUSB_SUCCESS
   \<and> e_open env_no_device = None
   \<and> (\<exists>g. main env_no_device = Go 0 g
        \<and> own (trace g) =
           [Sigaction_SIGINT, Libusb_init_context None,
            Libusb_open_device_with_vid_pid None 0x16c0 0x0763,
            Fprintf_stderr ''Error finding USB device\<newline>'' [], Libusb_exit None])"
proof -
  have "e_init_rc env_no_device = LIBUSB_SUCCESS"
    by (simp add: env_no_device_def env_ok_def LIBUSB_SUCCESS_def)
  with main_no_device [OF env_no_device_facts] env_no_device_facts show ?thesis
    by auto
qed

text \<open>
  C10, as stated, fails in one place: the counters are not changed only by the calls
  of the callback that return. A call whose re-submission is refused has already added
  the transfer to \<open>num_bytes\<close> and \<open>num_xfer\<close> (lines 110 and 111) when it calls
  \<open>exit(1)\<close> (lines 113 to 116).
\<close>

theorem counters_counterexample:
  "num_bytes initial_globals = 0 \<and> num_xfer initial_globals = 0
   \<and> (\<exists>g'. cb_xfr 9 xfr_ok (- 1) initial_globals = Stop (Exited 1) g'
          \<and> num_bytes g' = 2 \<and> num_xfer g' = 1)"
  by (simp add: run_defs xfr_ok_def)

text \<open>
  C10, amended. A call of the callback changes the counters exactly when the transfer
  passes its checks (the status \<open>LIBUSB_TRANSFER_COMPLETED\<close> and, for an isochronous
  transfer, every packet with that status): it adds the \<open>actual_length\<close> of the transfer
  (converted from \<open>int\<close> to \<open>unsigned long\<close>) to \<open>num_bytes\<close> and one to \<open>num_xfer\<close>, in
  the arithmetic of \<open>unsigned long\<close> (for a length that is not negative the new value is
  the sum modulo \<open>2 ^ 64\<close>), and then re-submits. It returns if the re-submission is
  accepted and exits with status 1 if it is refused, with the counters changed in both
  cases; a call that exits with status 3 or 5 leaves both counters as they were.
  Nothing else changes them: the signal handler, a library call of \<open>main\<close> or
  \<open>benchmark_in\<close> with the signals that arrive during it, \<open>benchmark_in\<close> and the code
  from the label \<open>out\<close> on leave both as they are. So when \<open>main\<close> returns, or the rounds
  of the environment end with the loop still running, \<open>num_bytes\<close> is the sum of the
  \<open>actual_length\<close> of the transfers completed in the rounds handled (as many as there
  are calls of \<open>libusb_handle_events\<close> by \<open>main\<close>), and \<open>num_xfer\<close> is their number. And
  when the process exits, they are the sum and the number of the transfers counted
  until then: none if the initialisation failed, otherwise every transfer that passed
  the checks up to the completion at which the callback exits, that one included when
  it is its re-submission that failed.
\<close>

theorem counters_count_completions:
  "(cb_xfr p xfr rc g = Go () g' \<longrightarrow>
      num_bytes g' = num_bytes g + scast (xfr_actual_length xfr)
      \<and> num_xfer g' = num_xfer g + 1
      \<and> (0 \<le> sint (xfr_actual_length xfr) \<longrightarrow>
           unat (num_bytes g') = (unat (num_bytes g) + nat (sint (xfr_actual_length xfr))) mod 2 ^ 64)
      \<and> passes xfr \<and> \<not> sint rc < 0)
   \<and> (cb_xfr p xfr rc g = Stop (Exited c) g' \<longrightarrow>
        (if passes xfr
         then c = 1 \<and> sint rc < 0
              \<and> num_bytes g' = num_bytes g + scast (xfr_actual_length xfr)
              \<and> num_xfer g' = num_xfer g + 1
         else (c = 3 \<or> c = 5) \<and> num_bytes g' = num_bytes g \<and> num_xfer g' = num_xfer g))
   \<and> num_bytes (final (sig_hdlr tv g)) = num_bytes g
   \<and> num_xfer (final (sig_hdlr tv g)) = num_xfer g
   \<and> num_bytes (final (lib_call env pt f cl g)) = num_bytes g
   \<and> num_xfer (final (lib_call env pt f cl g)) = num_xfer g
   \<and> num_bytes (final (benchmark_in env ep g)) = num_bytes g
   \<and> num_xfer (final (benchmark_in env ep g)) = num_xfer g
   \<and> num_bytes (final (main_out env orc g)) = num_bytes g
   \<and> num_xfer (final (main_out env orc g)) = num_xfer g
   \<and> (main env = Go mrc mg \<or> main env = Stop Still_running mg \<longrightarrow>
      (\<exists>k\<le>length (e_rounds env).
         length (filter (\<lambda>c. c = Libusb_handle_events None) (own (trace mg))) = k
         \<and> num_bytes mg = total_bytes (rounds_completed (take k (e_rounds env)))
         \<and> num_xfer mg = of_nat (length (rounds_completed (take k (e_rounds env))))))
   \<and> (main env = Stop (Exited mc) mg \<longrightarrow>
        num_bytes mg = total_bytes (exit_counted env)
        \<and> num_xfer mg = of_nat (length (exit_counted env)))"
proof (intro conjI impI)
  assume go: "cb_xfr p xfr rc g = Go () g'"
  with cb_xfr_outcome [of p xfr rc g]
  show 1: "num_bytes g' = num_bytes g + scast (xfr_actual_length xfr)"
    and "num_xfer g' = num_xfer g + 1" and "passes xfr" and "\<not> sint rc < 0"
    by (simp_all add: tally_one)
  assume nn: "0 \<le> sint (xfr_actual_length xfr)"
  have "sint (xfr_actual_length xfr) < 2 ^ 31"
    using sint_lt [of "xfr_actual_length xfr"] by simp
  then have lt: "sint (xfr_actual_length xfr) < 2 ^ 64"
    by (rule less_trans) simp
  have "uint (scast (xfr_actual_length xfr) :: 64 word) = sint (xfr_actual_length xfr) mod 2 ^ LENGTH(64)"
    unfolding scast_eq by (rule uint_word_of_int)
  also have "\<dots> = sint (xfr_actual_length xfr)"
    using nn lt by (simp add: mod_pos_pos_trivial)
  finally have "unat (scast (xfr_actual_length xfr) :: 64 word) = nat (sint (xfr_actual_length xfr))"
    by (simp only: unat_eq_nat_uint)
  then show "unat (num_bytes g') = (unat (num_bytes g) + nat (sint (xfr_actual_length xfr))) mod 2 ^ 64"
    unfolding 1 by (simp add: unat_word_ariths)
next
  assume "cb_xfr p xfr rc g = Stop (Exited c) g'"
  with cb_xfr_outcome [of p xfr rc g]
  show "if passes xfr
         then c = 1 \<and> sint rc < 0
              \<and> num_bytes g' = num_bytes g + scast (xfr_actual_length xfr)
              \<and> num_xfer g' = num_xfer g + 1
         else (c = 3 \<or> c = 5) \<and> num_bytes g' = num_bytes g \<and> num_xfer g' = num_xfer g"
    by (simp add: tally_one tally_none split: if_splits)
next
  show "num_bytes (final (sig_hdlr tv g)) = num_bytes g"
    and "num_xfer (final (sig_hdlr tv g)) = num_xfer g"
    using sig_hdlr_frame [of tv g]
    by (cases "sig_hdlr tv g"; simp add: sig_frame_counters)+
next
  show "num_bytes (final (lib_call env pt f cl g)) = num_bytes g"
    and "num_xfer (final (lib_call env pt f cl g)) = num_xfer g"
    using quiet_final [OF quiet_lib_call [of g env pt f cl]] by simp_all
next
  show "num_bytes (final (benchmark_in env ep g)) = num_bytes g"
    and "num_xfer (final (benchmark_in env ep g)) = num_xfer g"
    using quiet_final [OF quiet_benchmark_in [of g env ep]] by simp_all
next
  show "num_bytes (final (main_out env orc g)) = num_bytes g"
    and "num_xfer (final (main_out env orc g)) = num_xfer g"
    using quiet_final [OF quiet_main_out [of g env orc]] by simp_all
next
  assume m: "main env = Go mrc mg \<or> main env = Stop Still_running mg"
  have "\<exists>k\<le>length (e_rounds env).
      staged env (if main env = Go mrc mg then script env k else running env k)
        (rounds_completed (take k (e_rounds env))) mg
      \<and> (loop_reached env \<or> k = 0 \<and> main env = Go mrc mg)"
  proof (cases env rule: main_cases)
    case (returns rc g)
    with m show ?thesis
      by (auto simp: returned_def loop_reached_def split: if_splits)
  next
    case (halts h g)
    with m have "halted env Still_running mg" by simp
    then show ?thesis
      using halts(1) by (intro exI [of _ "length (e_rounds env)"]) (simp add: halted_def)
  qed
  then obtain k where k: "k \<le> length (e_rounds env)"
    "staged env (if main env = Go mrc mg then script env k else running env k)
        (rounds_completed (take k (e_rounds env))) mg"
    "loop_reached env \<or> k = 0 \<and> main env = Go mrc mg" by blast
  have cnt: "length (filter (\<lambda>c. c = Libusb_handle_events None) (own (trace mg))) = k"
    using k(2,3)
    by (auto simp: staged_def script_def running_def bench_calls_def teardown_def
        claim_call_def handle_call_def loop_reached_def split: option.splits if_splits)
  have "tally initial_globals (rounds_completed (take k (e_rounds env))) mg"
    using k(2) by (simp add: staged_def)
  then have "num_bytes mg = total_bytes (rounds_completed (take k (e_rounds env)))"
    "num_xfer mg = of_nat (length (rounds_completed (take k (e_rounds env))))"
    by (simp_all add: tally_def initial_globals_def)
  with k(1) cnt show "\<exists>k\<le>length (e_rounds env).
         length (filter (\<lambda>c. c = Libusb_handle_events None) (own (trace mg))) = k
         \<and> num_bytes mg = total_bytes (rounds_completed (take k (e_rounds env)))
         \<and> num_xfer mg = of_nat (length (rounds_completed (take k (e_rounds env))))"
    by blast
next
  assume "main env = Stop (Exited mc) mg"
  from main_exit_counters [OF this]
  show "num_bytes mg = total_bytes (exit_counted env)"
    and "num_xfer mg = of_nat (length (exit_counted env))"
    by (simp_all add: tally_def initial_globals_def)
qed

theorem counters_count_completions_witness:
  "(\<exists>g'. cb_xfr 9 xfr_ok 0 initial_globals = Go () g' \<and> num_bytes g' = 2 \<and> num_xfer g' = 1
      \<and> unat (num_bytes g') = 2)
   \<and> (\<exists>g'. cb_xfr 9 xfr_ok (- 1) initial_globals = Stop (Exited 1) g'
      \<and> num_bytes g' = 2 \<and> num_xfer g' = 1)
   \<and> (\<exists>g'. cb_xfr 9 xfr_bad_packet 0 initial_globals = Stop (Exited 5) g'
      \<and> num_bytes g' = 0 \<and> num_xfer g' = 0)
   \<and> (\<exists>g'. cb_xfr 9 xfr_stalled 0 initial_globals = Stop (Exited 3) g'
      \<and> num_bytes g' = 0 \<and> num_xfer g' = 0)
   \<and> (\<exists>g k. main env_ok = Go 0 g \<and> k \<le> 2
        \<and> length (filter (\<lambda>c. c = Libusb_handle_events None) (own (trace g))) = k
        \<and> num_bytes g = total_bytes (rounds_completed (take k (e_rounds env_ok))))
   \<and> (\<exists>g k. main env_running = Stop Still_running g \<and> k \<le> 1
        \<and> length (filter (\<lambda>c. c = Libusb_handle_events None) (own (trace g))) = k
        \<and> num_bytes g = total_bytes (rounds_completed (take k (e_rounds env_running))))
   \<and> exit_counted env_resubmit_error = [xfr_ok, xfr_ok]
   \<and> (\<exists>g. main env_resubmit_error = Stop (Exited 1) g \<and> num_bytes g = 4 \<and> num_xfer g = 2)"
proof -
  have z: "num_bytes initial_globals = 0" "num_xfer initial_globals = 0"
    by (simp_all add: initial_globals_def)
  have len: "xfr_actual_length xfr_ok = 2" "xfr_actual_length xfr_bad_packet = 2"
    by (simp_all add: xfr_ok_def xfr_bad_packet_def)
  obtain g1 where g1: "cb_xfr 9 xfr_ok 0 initial_globals = Go () g1"
    by (simp add: run_defs xfr_ok_def)
  from counters_count_completions [where p = 9 and xfr = xfr_ok and rc = 0 and g = initial_globals
      and g' = g1, THEN conjunct1] g1
  have 1: "num_bytes g1 = 2 \<and> num_xfer g1 = 1 \<and> unat (num_bytes g1) = 2"
    by (simp add: z len)
  obtain g2 where g2: "cb_xfr 9 xfr_ok (- 1) initial_globals = Stop (Exited 1) g2"
    by (simp add: run_defs xfr_ok_def)
  from counters_count_completions [where p = 9 and xfr = xfr_ok and rc = "- 1" and g = initial_globals
      and g' = g2 and c = 1, THEN conjunct2, THEN conjunct1] g2
  have 2: "num_bytes g2 = 2 \<and> num_xfer g2 = 1"
    by (simp add: z len xfr_passes)
  obtain g3 where g3: "cb_xfr 9 xfr_bad_packet 0 initial_globals = Stop (Exited 5) g3"
    by (simp add: run_defs xfr_bad_packet_def)
  from counters_count_completions [where p = 9 and xfr = xfr_bad_packet and rc = 0
      and g = initial_globals and g' = g3 and c = 5, THEN conjunct2, THEN conjunct1] g3
  have 3: "num_bytes g3 = 0 \<and> num_xfer g3 = 0"
    by (simp add: z xfr_passes)
  obtain g4 where g4: "cb_xfr 9 xfr_stalled 0 initial_globals = Stop (Exited 3) g4"
    by (simp add: run_defs xfr_stalled_def xfr_ok_def)
  from counters_count_completions [where p = 9 and xfr = xfr_stalled and rc = 0
      and g = initial_globals and g' = g4 and c = 3, THEN conjunct2, THEN conjunct1] g4
  have 4: "num_bytes g4 = 0 \<and> num_xfer g4 = 0"
    by (simp add: z xfr_stalled_fails)
  note main_part = conjunct2 [THEN conjunct2, THEN conjunct2, THEN conjunct2, THEN conjunct2,
      THEN conjunct2, THEN conjunct2, THEN conjunct2, THEN conjunct2, THEN conjunct2]
  from main_env_ok obtain g where g: "main env_ok = Go 0 g" by blast
  from counters_count_completions [where env = env_ok and mrc = 0 and mg = g,
      THEN main_part, THEN conjunct1] g
  have 5: "\<exists>k\<le>2. length (filter (\<lambda>c. c = Libusb_handle_events None) (own (trace g))) = k
        \<and> num_bytes g = total_bytes (rounds_completed (take k (e_rounds env_ok)))"
    by (auto simp: env_ok_def)
  from main_env_running obtain g6 where g6: "main env_running = Stop Still_running g6" by blast
  from counters_count_completions [where env = env_running and mg = g6,
      THEN main_part, THEN conjunct1] g6
  have 6: "\<exists>k\<le>1. length (filter (\<lambda>c. c = Libusb_handle_events None) (own (trace g6))) = k
        \<and> num_bytes g6 = total_bytes (rounds_completed (take k (e_rounds env_running)))"
    by (auto simp: env_running_def env_ok_def)
  have 7: "exit_counted env_resubmit_error = [xfr_ok, xfr_ok]"
    by (simp add: exit_counted_def env_resubmit_error_def env_ok_def xfr_passes)
  from main_env_resubmit_error obtain g8 where g8: "main env_resubmit_error = Stop (Exited 1) g8"
    by blast
  from counters_count_completions [where env = env_resubmit_error and mc = 1 and mg = g8,
      THEN main_part, THEN conjunct2] g8
  have 8: "num_bytes g8 = 4 \<and> num_xfer g8 = 2"
    by (simp add: 7 total_bytes_def len)
  from g1 1 g2 2 g3 3 g4 4 g 5 g6 6 7 g8 8 show ?thesis by blast
qed

end
